theory Spec2Isabelle
  imports Main "HOL-Library.Sublist" "HOL-Library.List_Lexorder"
begin

section \<open>JavaScript strings\<close>

text \<open>
  A JavaScript string is a sequence of UTF-16 code units; \<open>length\<close>, \<open>indexOf\<close>, the
  \<open>index\<close> of a match and every highlight offset count code units. A code unit is a
  natural number below 65536. \<open>js\<close> turns an ASCII literal into such a string.
\<close>

type_synonym codeunit = nat
type_synonym jsstring = "codeunit list"

definition js :: "string \<Rightarrow> jsstring" where
  "js s = map of_char s"

text \<open>\<open>s.substring(i, j)\<close> for \<open>i \<le> j\<close>.\<close>

definition substring :: "jsstring \<Rightarrow> nat \<Rightarrow> nat \<Rightarrow> jsstring" where
  "substring s i j = take (j - i) (drop i s)"

text \<open>\<open>s.indexOf(t)\<close>: the first position where \<open>t\<close> occurs in \<open>s\<close>, or \<open>-1\<close>.\<close>

fun indexOf_from :: "nat \<Rightarrow> jsstring \<Rightarrow> jsstring \<Rightarrow> int" where
  "indexOf_from k [] t = (if t = [] then int k else - 1)"
| "indexOf_from k (ch # s) t =
     (if prefix t (ch # s) then int k else indexOf_from (Suc k) s t)"

definition indexOf :: "jsstring \<Rightarrow> jsstring \<Rightarrow> int" where
  "indexOf s t = indexOf_from 0 s t"

section \<open>Regular expressions\<close>

text \<open>
  The four patterns of \<open>analysisService.ts\<close> are regular expression literals. They are
  embedded as syntax trees and run by the backtracking matcher of the language
  (ECMAScript, \<open>RegExp\<close> pattern semantics): a matcher takes the current state and a
  continuation, and alternatives are tried in order. A character set is a list of
  inclusive ranges, possibly inverted.
\<close>

datatype node =
    Empty
  | CharSet bool "(codeunit \<times> codeunit) list"
  | Seq node node
  | Alt node node
  | Group nat node
  | Quant node nat "nat option" bool

record mstate =
  endIndex :: nat
  rest :: jsstring
  captures :: "(nat \<times> nat) option list"

text \<open>
  \<open>rest\<close> is the input from \<open>endIndex\<close> on. \<open>captures ! k\<close> is the span of the
  \<open>k\<close>-th parenthesis, \<open>None\<close> while it is undefined; position 0 is not used.
\<close>

fun nsize :: "node \<Rightarrow> nat" where
  "nsize Empty = 0"
| "nsize (CharSet invert A) = 0"
| "nsize (Seq a b) = Suc (nsize a + nsize b)"
| "nsize (Alt a b) = Suc (nsize a + nsize b)"
| "nsize (Group k r) = Suc (nsize r)"
| "nsize (Quant r mn mx g) = Suc (nsize r)"

fun groups :: "node \<Rightarrow> nat list" where
  "groups Empty = []"
| "groups (CharSet invert A) = []"
| "groups (Seq a b) = groups a @ groups b"
| "groups (Alt a b) = groups a @ groups b"
| "groups (Group k r) = k # groups r"
| "groups (Quant r mn mx g) = groups r"

text \<open>
  \<open>Canonicalize\<close> for a pattern without the \<open>u\<close> flag: with \<open>ignoreCase\<close> a code unit is
  replaced by its upper case. The language never maps a code unit of 128 or more to one
  below 128, and no character has a white space or a line terminator as its upper case;
  every character the four patterns name is ASCII, white space or a line terminator, so
  only the ASCII letters are mapped here.
\<close>

definition canonicalize :: "bool \<Rightarrow> codeunit \<Rightarrow> codeunit" where
  "canonicalize ic ch = (if ic \<and> 97 \<le> ch \<and> ch \<le> 122 then ch - 32 else ch)"

definition found :: "bool \<Rightarrow> (codeunit \<times> codeunit) list \<Rightarrow> codeunit \<Rightarrow> bool" where
  "found ic A ch =
     list_ex (\<lambda>(lo, hi). list_ex (\<lambda>a. canonicalize ic a = canonicalize ic ch) [lo..<Suc hi]) A"

definition clear_captures :: "nat list \<Rightarrow> (nat \<times> nat) option list \<Rightarrow> (nat \<times> nat) option list" where
  "clear_captures ks cs = fold (\<lambda>k cs. cs[k := None]) ks cs"

text \<open>
  The clause for \<open>Quant\<close> is \<open>RepeatMatcher\<close>: \<open>d\<close> is the continuation after one more
  iteration, and an iteration that is not required and consumed nothing is rejected.
  The language tests \<open>y.endIndex = x.endIndex\<close>; a matcher only moves forward, so this
  is the test that \<open>rest y\<close> is not shorter than \<open>rest x\<close>, which is how it is written
  here (lemma \<open>matcher_Quant_guard\<close> gives the clause with the equality test).
\<close>

function matcher :: "bool \<Rightarrow> node \<Rightarrow> mstate \<Rightarrow> (mstate \<Rightarrow> mstate option) \<Rightarrow> mstate option" where
  "matcher ic Empty x c = c x"
| "matcher ic (CharSet invert A) x c =
     (case rest x of
        [] \<Rightarrow> None
      | ch # r \<Rightarrow> if found ic A ch = invert then None
                  else c (x\<lparr>endIndex := endIndex x + 1, rest := r\<rparr>))"
| "matcher ic (Seq a b) x c = matcher ic a x (\<lambda>y. matcher ic b y c)"
| "matcher ic (Alt a b) x c =
     (case matcher ic a x c of Some z \<Rightarrow> Some z | None \<Rightarrow> matcher ic b x c)"
| "matcher ic (Group k r) x c =
     matcher ic r x (\<lambda>y. c (y\<lparr>captures := (captures y)[k := Some (endIndex x, endIndex y)]\<rparr>))"
| "matcher ic (Quant r mn mx greedy) x c =
     (if mx = Some 0 then c x
      else
        let d = (\<lambda>y. if mn = 0 \<and> length (rest x) \<le> length (rest y) then None
                      else matcher ic (Quant r (mn - 1) (map_option (\<lambda>k. k - 1) mx) greedy) y c);
            xr = x\<lparr>captures := clear_captures (groups r) (captures x)\<rparr>
        in if mn \<noteq> 0 then matcher ic r xr d
           else if \<not> greedy then (case c x of Some z \<Rightarrow> Some z | None \<Rightarrow> matcher ic r xr d)
           else (case matcher ic r xr d of Some z \<Rightarrow> Some z | None \<Rightarrow> c x))"
  by pat_completeness auto
termination
  by (relation "measures [\<lambda>(ic, r, x, c). nsize r,
                          \<lambda>(ic, r, x, c). (case r of Quant r mn mx g \<Rightarrow> mn | _ \<Rightarrow> 0),
                          \<lambda>(ic, r, x, c). length (rest x)]") auto

text \<open>
  A regular expression object: the pattern and its flags. \<open>lastIndex\<close> is the one
  mutable property of the object; it is passed in and returned.
\<close>

record regexp =
  pattern :: node
  ignoreCase :: bool
  global :: bool

record match_result =
  index :: nat
  end_index :: nat
  match_captures :: "(nat \<times> nat) option list"

text \<open>
  The loop of \<open>RegExpBuiltinExec\<close>: try the matcher at \<open>i\<close>, on failure advance by one
  code unit, until \<open>i\<close> passes the end of the input (\<open>s\<close> is the input from \<open>i\<close> on).
\<close>

fun search :: "bool \<Rightarrow> node \<Rightarrow> nat \<Rightarrow> jsstring \<Rightarrow> match_result option" where
  "search ic r i s =
     (case matcher ic r \<lparr>endIndex = i, rest = s,
                          captures = replicate (Suc (length (groups r))) None\<rparr> Some of
        Some y \<Rightarrow> Some \<lparr>index = i, end_index = endIndex y, match_captures = captures y\<rparr>
      | None \<Rightarrow> (case s of [] \<Rightarrow> None | ch # s' \<Rightarrow> search ic r (Suc i) s'))"

text \<open>
  \<open>RegExpBuiltinExec(R, S)\<close>: without the \<open>g\<close> flag the search starts at 0 and
  \<open>lastIndex\<close> is left alone; with it the search starts at \<open>lastIndex\<close>, which is set to
  the end of the match, or to 0 on failure.
\<close>

definition RegExpBuiltinExec :: "regexp \<Rightarrow> nat \<Rightarrow> jsstring \<Rightarrow> match_result option \<times> nat" where
  "RegExpBuiltinExec R lastIndex S =
     (let start = (if global R then lastIndex else 0) in
      if length S < start then (None, if global R then 0 else lastIndex)
      else case search (ignoreCase R) (pattern R) start (drop start S) of
             None \<Rightarrow> (None, if global R then 0 else lastIndex)
           | Some mt \<Rightarrow> (Some mt, if global R then end_index mt else lastIndex))"

text \<open>
  \<open>S.match(R)\<close> for a regular expression without the \<open>g\<close> flag, which is
  \<open>RegExpBuiltinExec\<close>, and \<open>R.test(S)\<close>.
\<close>

definition String_match :: "jsstring \<Rightarrow> regexp \<Rightarrow> nat \<Rightarrow> match_result option \<times> nat" where
  "String_match S R lastIndex = RegExpBuiltinExec R lastIndex S"

definition RegExp_test :: "regexp \<Rightarrow> nat \<Rightarrow> jsstring \<Rightarrow> bool \<times> nat" where
  "RegExp_test R lastIndex S =
     (case RegExpBuiltinExec R lastIndex S of (None, li) \<Rightarrow> (False, li) | (Some mt, li) \<Rightarrow> (True, li))"

text \<open>\<open>match[0]\<close> and \<open>match[k]\<close>; a parenthesis that did not take part is \<open>undefined\<close>.\<close>

definition matched :: "jsstring \<Rightarrow> match_result \<Rightarrow> jsstring" where
  "matched S mt = substring S (index mt) (end_index mt)"

definition capture :: "jsstring \<Rightarrow> match_result \<Rightarrow> nat \<Rightarrow> jsstring option" where
  "capture S mt k =
     (if k < length (match_captures mt)
      then map_option (\<lambda>(s, e). substring S s e) (match_captures mt ! k)
      else None)"

subsection \<open>Pattern syntax\<close>

fun lit :: "string \<Rightarrow> node" where
  "lit [] = Empty"
| "lit (c # cs) = Seq (CharSet False [(of_char c, of_char c)]) (lit cs)"

text \<open>
  \<open>\s\<close> is white space and line terminators; \<open>.\<close> is anything but a line terminator
  (line feed, carriage return, U+2028, U+2029).
\<close>

definition white_space :: "(codeunit \<times> codeunit) list" where
  "white_space = [(9, 13), (32, 32), (160, 160), (5760, 5760), (8192, 8202), (8232, 8233),
                  (8239, 8239), (8287, 8287), (12288, 12288), (65279, 65279)]"

definition line_terminator :: "(codeunit \<times> codeunit) list" where
  "line_terminator = [(10, 10), (13, 13), (8232, 8233)]"

definition ws :: node where
  "ws = CharSet False white_space"

definition dot :: node where
  "dot = CharSet True line_terminator"

definition star :: "node \<Rightarrow> node" where
  "star r = Quant r 0 None True"

definition plus :: "node \<Rightarrow> node" where
  "plus r = Quant r 1 None True"

definition opt :: "node \<Rightarrow> node" where
  "opt r = Quant r 0 (Some 1) True"

definition lazy_star :: "node \<Rightarrow> node" where
  "lazy_star r = Quant r 0 None False"

section \<open>analysisService.ts\<close>

text \<open>
  \<^verbatim>\<open>SOURCE: /(name|source|sauce|anime|movie|title|track|song)\s*[:=-]\s*(.+)/i\<close>
\<close>

definition source_labels :: "string list" where
  "source_labels = [''name'', ''source'', ''sauce'', ''anime'', ''movie'', ''title'', ''track'', ''song'']"

definition source_separators :: "(codeunit \<times> codeunit) list" where
  "source_separators = [(58, 58), (61, 61), (45, 45)]"

definition alternatives :: "string list \<Rightarrow> node" where
  "alternatives ls = foldr (\<lambda>l r. Alt (lit l) r) (butlast ls) (lit (last ls))"

definition SOURCE :: regexp where
  "SOURCE = \<lparr>pattern =
               Seq (Group 1 (alternatives source_labels))
              (Seq (star ws)
              (Seq (CharSet False source_separators)
              (Seq (star ws)
                   (Group 2 (plus dot))))),
             ignoreCase = True, global = False\<rparr>"

text \<open>
  \<^verbatim>\<open>HELPER: /it['...]?s\s*([A-Z][a-z]+(\s[A-Z][a-z]+)*)/\<close>, where the class after
  \<open>it\<close> holds the apostrophe and the three characters U+00E2, U+20AC, U+2122 that the
  source file has there.
\<close>

definition upper_AZ :: node where
  "upper_AZ = CharSet False [(65, 90)]"

definition lower_az :: node where
  "lower_az = CharSet False [(97, 122)]"

definition HELPER :: regexp where
  "HELPER = \<lparr>pattern =
               Seq (lit ''it'')
              (Seq (opt (CharSet False [(39, 39), (226, 226), (8364, 8364), (8482, 8482)]))
              (Seq (lit ''s'')
              (Seq (star ws)
                   (Group 1 (Seq upper_AZ (Seq (plus lower_az)
                      (star (Group 2 (Seq ws (Seq upper_AZ (plus lower_az))))))))))),
             ignoreCase = False, global = False\<rparr>"

text \<open>\<^verbatim>\<open>BRACKET: /\[(.*?)\]/\<close>\<close>

definition BRACKET :: regexp where
  "BRACKET = \<lparr>pattern = Seq (lit ''['') (Seq (Group 1 (lazy_star dot)) (lit '']'')),
              ignoreCase = False, global = False\<rparr>"

text \<open>\<^verbatim>\<open>QUESTION: /(what|name|sauce)\?/i\<close>\<close>

definition QUESTION :: regexp where
  "QUESTION = \<lparr>pattern = Seq (Group 1 (alternatives [''what'', ''name'', ''sauce''])) (lit ''?''),
               ignoreCase = True, global = False\<rparr>"

text \<open>The \<open>lastIndex\<close> properties of the four objects in \<open>PATTERNS\<close>.\<close>

record patterns_state =
  SOURCE_lastIndex :: nat
  HELPER_lastIndex :: nat
  BRACKET_lastIndex :: nat
  QUESTION_lastIndex :: nat

datatype kind = source | helper | bracket

record highlight =
  hl_start :: int
  hl_end :: int
  hl_type :: kind

record AnalysisResult =
  score :: int
  highlights :: "highlight list"

text \<open>
  Reading \<open>.length\<close> of a capture that is \<open>undefined\<close> throws a \<open>TypeError\<close>.
\<close>

datatype exn = TypeError | SyntaxError | QuotaExceeded | NetworkError

text \<open>
  The three blocks of \<open>analyzeComment\<close> that push a highlight. The result of \<open>match\<close>
  on a regular expression without the \<open>g\<close> flag always has an \<open>index\<close>, so the test
  \<open>index !== undefined\<close> is true whenever there is a match.
\<close>

definition source_block :: "jsstring \<Rightarrow> match_result option \<Rightarrow> AnalysisResult \<Rightarrow> exn + AnalysisResult" where
  "source_block text sourceMatch acc =
     (case sourceMatch of
        None \<Rightarrow> Inr acc
      | Some mt \<Rightarrow>
          (case capture text mt 2 of
             None \<Rightarrow> Inl TypeError
           | Some value_part \<Rightarrow>
               let fullMatch = matched text mt;
                   valueStart = int (index mt) + indexOf fullMatch value_part
               in Inr \<lparr>score = score acc + 80,
                       highlights = highlights acc @
                         [\<lparr>hl_start = valueStart,
                           hl_end = valueStart + int (length value_part),
                           hl_type = source\<rparr>]\<rparr>))"

definition helper_block :: "jsstring \<Rightarrow> match_result option \<Rightarrow> AnalysisResult \<Rightarrow> exn + AnalysisResult" where
  "helper_block text helperMatch acc =
     (case helperMatch of
        None \<Rightarrow> Inr acc
      | Some mt \<Rightarrow>
          (case capture text mt 1 of
             None \<Rightarrow> Inl TypeError
           | Some title_part \<Rightarrow>
               let fullMatch = matched text mt;
                   titleStart = int (index mt) + indexOf fullMatch title_part
               in Inr \<lparr>score = score acc + 50,
                       highlights = highlights acc @
                         [\<lparr>hl_start = titleStart,
                           hl_end = titleStart + int (length title_part),
                           hl_type = helper\<rparr>]\<rparr>))"

definition bracket_block :: "jsstring \<Rightarrow> match_result option \<Rightarrow> AnalysisResult \<Rightarrow> AnalysisResult" where
  "bracket_block text bracketMatch acc =
     (case bracketMatch of
        None \<Rightarrow> acc
      | Some mt \<Rightarrow>
          \<lparr>score = score acc + 40,
           highlights = highlights acc @
             [\<lparr>hl_start = int (index mt),
               hl_end = int (index mt) + int (length (matched text mt)),
               hl_type = bracket\<rparr>]\<rparr>)"

definition analyzeComment_st ::
    "jsstring \<Rightarrow> patterns_state \<Rightarrow> (exn + AnalysisResult) \<times> patterns_state" where
  "analyzeComment_st text st =
     (let (sourceMatch, li1) = String_match text SOURCE (SOURCE_lastIndex st);
          (helperMatch, li2) = String_match text HELPER (HELPER_lastIndex st);
          (bracketMatch, li3) = String_match text BRACKET (BRACKET_lastIndex st);
          (question, li4) = RegExp_test QUESTION (QUESTION_lastIndex st) text;
          st' = \<lparr>SOURCE_lastIndex = li1, HELPER_lastIndex = li2,
                 BRACKET_lastIndex = li3, QUESTION_lastIndex = li4\<rparr>
      in case source_block text sourceMatch \<lparr>score = 0, highlights = []\<rparr> of
           Inl e \<Rightarrow> (Inl e, st')
         | Inr acc1 \<Rightarrow>
             (case helper_block text helperMatch acc1 of
                Inl e \<Rightarrow> (Inl e, st')
              | Inr acc2 \<Rightarrow>
                  let acc3 = bracket_block text bracketMatch acc2;
                      acc4 = (if question then acc3\<lparr>score := score acc3 + 10\<rparr> else acc3)
                  in (Inr (acc4\<lparr>score := min (score acc4) 100\<rparr>), st')))"

text \<open>A freshly created regular expression object has \<open>lastIndex = 0\<close>.\<close>

definition patterns_init :: patterns_state where
  "patterns_init = \<lparr>SOURCE_lastIndex = 0, HELPER_lastIndex = 0,
                     BRACKET_lastIndex = 0, QUESTION_lastIndex = 0\<rparr>"

definition analyzeComment :: "jsstring \<Rightarrow> exn + AnalysisResult" where
  "analyzeComment text = fst (analyzeComment_st text patterns_init)"

section \<open>types.ts\<close>

record Comment =
  comment_id :: jsstring
  parentId :: "jsstring option"
  videoId :: jsstring
  authorName :: jsstring
  authorProfileImageUrl :: jsstring
  textDisplay :: jsstring
  textOriginal :: jsstring
  likeCount :: int
  replyCount :: int
  publishedAt :: jsstring
  isSuperThanks :: bool
  isPinned :: bool
  repliesFetched :: bool
  comment_score :: int

text \<open>
  The numbers \<open>parseInt\<close> returns: \<open>NaN\<close>, the two zeros, the integers a double holds,
  and the two infinities. \<open>Finite 0\<close> is the positive zero.
\<close>

datatype number = NaN | NegativeZero | Finite int | PositiveInfinity | NegativeInfinity

datatype video_scan_status = VIdle | Scanning_toplevel | Scanning_replies | VComplete

record VideoMetadata =
  meta_videoId :: jsstring
  title :: jsstring
  thumbnailUrl :: jsstring
  totalComments :: number
  lastScanned :: int
  scanStatus :: video_scan_status

datatype scan_status = Idle | Running | Paused | Error | Complete

datatype scan_mode = Smart | Deep

text \<open>
  The text of \<open>stats.error\<close> is the \<open>message\<close> of the exception caught. An error the
  service constructs has the text it was constructed with; the text of an exception the
  engine throws is the engine's own and is not fixed by the program.
\<close>

datatype message_text = Text jsstring | Engine_text exn

record ScanStats =
  fetchedCount :: int
  totalEstimated :: int
  status :: scan_status
  mode :: "scan_mode option"
  error :: "message_text option"

section \<open>The remote API\<close>

text \<open>
  The JSON the three endpoints answer with. A field the code tests for presence is an
  \<open>option\<close>. A comment resource is what \<open>mapApiCommentToLocal\<close> receives: it reads
  \<open>id\<close>, the \<open>snippet\<close>, and \<open>replies.comments.length\<close> when \<open>replies\<close> is present.
  A thread resource has the top-level comment and the total number of replies of the
  thread in its \<open>snippet\<close> (\<open>item.snippet.topLevelComment\<close> and
  \<open>item.snippet.totalReplyCount\<close>) and the replies it carries inline in
  \<open>item.replies\<close>; \<open>fetchCommentThreads\<close> reads the first and the last of the three.
\<close>

record api_snippet =
  authorDisplayName :: jsstring
  snippet_authorProfileImageUrl :: jsstring
  snippet_textDisplay :: jsstring
  snippet_textOriginal :: jsstring
  snippet_likeCount :: int
  totalReplyCount :: "int option"
  snippet_publishedAt :: jsstring

datatype api_comment =
  ApiComment (item_id: jsstring) (item_snippet: api_snippet) (item_replies: "api_replies option")
and api_replies =
  ApiReplies (reply_comments: "api_comment list option")

record api_thread =
  topLevelComment :: api_comment
  thread_totalReplyCount :: "int option"
  thread_replies :: "api_replies option"

record video_item =
  snippet_title :: jsstring
  thumbnails_medium_url :: jsstring
  statistics_commentCount :: "jsstring option"

datatype body =
    NotJson
  | NoItems
  | VideoItems "video_item list"
  | ThreadItems "api_thread list" "jsstring option"
  | CommentItems "api_comment list" "jsstring option"

record response =
  res_status :: nat
  res_body :: body

definition ok :: "response \<Rightarrow> bool" where
  "ok res \<longleftrightarrow> 200 \<le> res_status res \<and> res_status res \<le> 299"

datatype endpoint = Videos | CommentThreads | Comments

record request =
  req_endpoint :: endpoint
  req_id :: jsstring
  req_pageToken :: "jsstring option"

section \<open>The state of the page\<close>

text \<open>
  What the code reads and writes: the two tables of the database, the React state
  \<open>stats\<close> and the ref \<open>cancelScanRef\<close> of the dashboard, and the outside world. The
  outside world is a script of events: the responses of the server in the order the
  requests receive them, and the presses of the Stop button, each of which arrives while
  the request that is answered after it is in flight. \<open>requests\<close> records every request
  dispatched, \<open>status_log\<close> every status the scan state is given.
\<close>

datatype event = Stop | Response response

record world =
  comments :: "Comment list"
  videos :: "jsstring \<rightharpoonup> VideoMetadata"
  events :: "event list"
  requests :: "request list"
  stats :: ScanStats
  status_log :: "scan_status list"
  cancelScanRef :: bool
  Date_now :: int

definition setStats :: "(ScanStats \<Rightarrow> ScanStats) \<Rightarrow> world \<Rightarrow> world" where
  "setStats f w = w\<lparr>stats := f (stats w), status_log := status_log w @ [status (f (stats w))]\<rparr>"

definition stopScan :: "world \<Rightarrow> world" where
  "stopScan w = setStats (\<lambda>prev. prev\<lparr>status := Paused\<rparr>) (w\<lparr>cancelScanRef := True\<rparr>)"

type_synonym 'a outcome = "((exn + 'a) \<times> world) option"

text \<open>
  \<open>await fetch(url)\<close>: the request is dispatched, and the call settles with the next
  response of the script; a Stop pressed before that runs \<open>stopScan\<close>. When the script
  holds no further response the call never settles (\<open>None\<close>).
\<close>

fun settle :: "event list \<Rightarrow> world \<Rightarrow> (response \<times> world) option" where
  "settle [] w = None"
| "settle (Stop # es) w = settle es (stopScan w)"
| "settle (Response r # es) w = Some (r, w\<lparr>events := es\<rparr>)"

definition fetch :: "request \<Rightarrow> world \<Rightarrow> (response \<times> world) option" where
  "fetch req w = settle (events w) (w\<lparr>requests := requests w @ [req]\<rparr>)"

section \<open>db.ts\<close>

text \<open>
  The table \<open>comments\<close> has the primary key \<open>id\<close>; its rows are kept in ascending order
  of the key (strings are ordered by their code units), one row per key.
\<close>

fun put :: "Comment \<Rightarrow> Comment list \<Rightarrow> Comment list" where
  "put c [] = [c]"
| "put c (r # rs) =
     (if comment_id c = comment_id r then c # rs
      else if comment_id c < comment_id r then c # r # rs
      else r # put c rs)"

definition bulkPut :: "Comment list \<Rightarrow> Comment list \<Rightarrow> Comment list" where
  "bulkPut cs rows = fold put cs rows"

text \<open>\<open>db.comments.update(key, {repliesFetched: true})\<close>\<close>

definition update_repliesFetched :: "jsstring \<Rightarrow> Comment list \<Rightarrow> Comment list" where
  "update_repliesFetched key rows =
     map (\<lambda>r. if comment_id r = key then r\<lparr>repliesFetched := True\<rparr> else r) rows"

text \<open>\<open>db.comments.where('videoId').equals(videoId).filter(p).toArray()\<close>\<close>

definition where_videoId :: "jsstring \<Rightarrow> (Comment \<Rightarrow> bool) \<Rightarrow> Comment list \<Rightarrow> Comment list" where
  "where_videoId v p rows = filter (\<lambda>c. videoId c = v \<and> p c) rows"

definition resetDatabaseForVideo :: "jsstring \<Rightarrow> world \<Rightarrow> world" where
  "resetDatabaseForVideo v w =
     w\<lparr>comments := filter (\<lambda>c. videoId c \<noteq> v) (comments w), videos := (videos w)(v := None)\<rparr>"

section \<open>youtubeService.ts\<close>

text \<open>
  \<open>enqueueRequest\<close> hands the request to the queue and settles with its result. The
  requests of a scan are issued one after the other, each awaited before the next, so
  here the queued request runs when it is enqueued; the pacing of the queue is the
  subject of the last section.
\<close>

definition enqueueRequest :: "(world \<Rightarrow> 'a outcome) \<Rightarrow> world \<Rightarrow> 'a outcome" where
  "enqueueRequest request w = request w"

text \<open>\<open>x || null\<close> for a page token: the empty string counts as absent.\<close>

definition or_null :: "jsstring option \<Rightarrow> jsstring option" where
  "or_null tok = (case tok of None \<Rightarrow> None | Some t \<Rightarrow> if t = [] then None else Some t)"

text \<open>
  \<open>parseInt(s, 10)\<close>: leading white space, an optional sign, then decimal digits up to
  the first other character. Without a digit the result is \<open>NaN\<close>; otherwise it is the
  double nearest to the integer the digits denote (a tie goes to the even significand,
  and a value too large for a double is an infinity), and zero with a minus sign is the
  negative zero.
\<close>

definition is_digit :: "codeunit \<Rightarrow> bool" where
  "is_digit ch \<longleftrightarrow> 48 \<le> ch \<and> ch \<le> 57"

definition digits_value :: "codeunit list \<Rightarrow> nat" where
  "digits_value ds = foldl (\<lambda>n d. 10 * n + (d - 48)) 0 ds"

fun bit_length :: "nat \<Rightarrow> nat" where
  "bit_length n = (if n = 0 then 0 else Suc (bit_length (n div 2)))"

definition round_to_double :: "nat \<Rightarrow> nat option" where
  "round_to_double n =
     (let e = bit_length n - 53;
          q = n div 2 ^ e;
          r = n mod 2 ^ e;
          q' = (if 2 ^ e < 2 * r \<or> (2 * r = 2 ^ e \<and> odd q) then q + 1 else q)
      in if 2 ^ 1024 \<le> q' * 2 ^ e then None else Some (q' * 2 ^ e))"

definition parseInt10 :: "jsstring \<Rightarrow> number" where
  "parseInt10 s =
     (let t = dropWhile (found False white_space) s;
          (neg, u) = (case t of [] \<Rightarrow> (False, [])
                      | ch # u \<Rightarrow> if ch = 45 then (True, u) else if ch = 43 then (False, u) else (False, t));
          ds = takeWhile is_digit u
      in if ds = [] then NaN
         else if digits_value ds = 0 then (if neg then NegativeZero else Finite 0)
         else case round_to_double (digits_value ds) of
                None \<Rightarrow> if neg then NegativeInfinity else PositiveInfinity
              | Some m \<Rightarrow> Finite (if neg then - int m else int m))"

definition fetchVideoDetails :: "jsstring \<Rightarrow> jsstring \<Rightarrow> world \<Rightarrow> VideoMetadata option outcome" where
  "fetchVideoDetails vid apiKey =
     enqueueRequest (\<lambda>w.
       case fetch \<lparr>req_endpoint = Videos, req_id = vid, req_pageToken = None\<rparr> w of
         None \<Rightarrow> None
       | Some (response, w1) \<Rightarrow>
           (case res_body response of
              NotJson \<Rightarrow> Some (Inl SyntaxError, w1)
            | NoItems \<Rightarrow> Some (Inr None, w1)
            | VideoItems [] \<Rightarrow> Some (Inr None, w1)
            | VideoItems (item # items) \<Rightarrow>
                let meta = \<lparr>meta_videoId = vid,
                            title = snippet_title item,
                            thumbnailUrl = thumbnails_medium_url item,
                            totalComments =
                              parseInt10 (case statistics_commentCount item of
                                            None \<Rightarrow> js ''0''
                                          | Some s \<Rightarrow> if s = [] then js ''0'' else s),
                            lastScanned = Date_now w1,
                            scanStatus = VIdle\<rparr>
                in Some (Inr (Some meta), w1\<lparr>videos := (videos w1)(vid \<mapsto> meta)\<rparr>)
            | _ \<Rightarrow> Some (Inl TypeError, w1)))"

text \<open>
  \<open>mapApiCommentToLocal\<close>. \<open>item.replies.comments.length\<close> throws when \<open>replies\<close> is
  there without \<open>comments\<close>; \<open>snippet.totalReplyCount || 0\<close> is 0 when the count is absent.
\<close>

definition mapApiCommentToLocal :: "api_comment \<Rightarrow> jsstring \<Rightarrow> jsstring option \<Rightarrow> exn + Comment" where
  "mapApiCommentToLocal item vid parent =
     (let snippet = item_snippet item in
      case analyzeComment (snippet_textOriginal snippet) of
        Inl e \<Rightarrow> Inl e
      | Inr analysis \<Rightarrow>
          (case (case item_replies item of
                   None \<Rightarrow> Inr (case totalReplyCount snippet of None \<Rightarrow> 0 | Some n \<Rightarrow> n)
                 | Some rp \<Rightarrow> (case reply_comments rp of
                                None \<Rightarrow> Inl TypeError
                              | Some cs \<Rightarrow> Inr (int (length cs)))) of
             Inl e \<Rightarrow> Inl e
           | Inr count \<Rightarrow>
               Inr \<lparr>comment_id = item_id item,
                    parentId = parent,
                    videoId = vid,
                    authorName = authorDisplayName snippet,
                    authorProfileImageUrl = snippet_authorProfileImageUrl snippet,
                    textDisplay = snippet_textDisplay snippet,
                    textOriginal = snippet_textOriginal snippet,
                    likeCount = snippet_likeCount snippet,
                    replyCount = count,
                    publishedAt = snippet_publishedAt snippet,
                    isSuperThanks = False,
                    isPinned = False,
                    repliesFetched = False,
                    comment_score = score analysis\<rparr>))"

text \<open>Mapping a list of items; the first exception ends it.\<close>

fun map_items :: "('a \<Rightarrow> exn + 'b) \<Rightarrow> 'a list \<Rightarrow> exn + 'b list" where
  "map_items f [] = Inr []"
| "map_items f (x # xs) =
     (case f x of
        Inl e \<Rightarrow> Inl e
      | Inr y \<Rightarrow> (case map_items f xs of Inl e \<Rightarrow> Inl e | Inr ys \<Rightarrow> Inr (y # ys)))"

text \<open>
  The replies a thread carries inline: \<open>item.replies && item.replies.comments\<close>.
\<close>

definition inlined_replies :: "api_thread \<Rightarrow> api_comment list option" where
  "inlined_replies item = (case thread_replies item of None \<Rightarrow> None | Some rp \<Rightarrow> reply_comments rp)"

text \<open>
  One turn of the loop over \<open>data.items\<close> in \<open>fetchCommentThreads\<close>: the comments it
  pushes. The top-level comment is pushed first and its \<open>repliesFetched\<close> is assigned
  afterwards, on the same object, so the array holds it with the flag as assigned.
\<close>

definition thread_comments :: "jsstring \<Rightarrow> api_thread \<Rightarrow> exn + Comment list" where
  "thread_comments vid item =
     (case mapApiCommentToLocal (topLevelComment item) vid None of
        Inl e \<Rightarrow> Inl e
      | Inr topLevel \<Rightarrow>
          (case inlined_replies item of
             None \<Rightarrow> Inr [topLevel]
           | Some replies \<Rightarrow>
               (case map_items (\<lambda>reply. mapApiCommentToLocal reply vid (Some (comment_id topLevel))) replies of
                  Inl e \<Rightarrow> Inl e
                | Inr rs \<Rightarrow>
                    Inr ((if replyCount topLevel \<le> int (length replies)
                          then topLevel\<lparr>repliesFetched := True\<rparr> else topLevel) # rs))))"

definition page_comments :: "jsstring \<Rightarrow> api_thread list \<Rightarrow> exn + Comment list" where
  "page_comments vid items =
     (case map_items (thread_comments vid) items of Inl e \<Rightarrow> Inl e | Inr css \<Rightarrow> Inr (concat css))"

definition fetchCommentThreads ::
    "jsstring \<Rightarrow> jsstring \<Rightarrow> jsstring \<Rightarrow> (int \<Rightarrow> world \<Rightarrow> world) \<Rightarrow> world \<Rightarrow> jsstring option outcome" where
  "fetchCommentThreads vid apiKey pageToken onProgress =
     enqueueRequest (\<lambda>w.
       case fetch \<lparr>req_endpoint = CommentThreads, req_id = vid,
                   req_pageToken = (if pageToken = [] then None else Some pageToken)\<rparr> w of
         None \<Rightarrow> None
       | Some (res, w1) \<Rightarrow>
           if res_status res = 403 then Some (Inl QuotaExceeded, w1)
           else if \<not> ok res then Some (Inl NetworkError, w1)
           else (case res_body res of
                   NotJson \<Rightarrow> Some (Inl SyntaxError, w1)
                 | ThreadItems items nextPageToken \<Rightarrow>
                     (case page_comments vid items of
                        Inl e \<Rightarrow> Some (Inl e, w1)
                      | Inr cs \<Rightarrow>
                          Some (Inr (or_null nextPageToken),
                                onProgress (int (length cs))
                                  (w1\<lparr>comments := bulkPut cs (comments w1)\<rparr>)))
                 | _ \<Rightarrow> Some (Inl TypeError, w1)))"

lemma settle_events: "settle es w = Some (r, w') \<Longrightarrow> length (events w') < length es"
  by (induction es w rule: settle.induct) auto

lemma fetch_events: "fetch req w = Some (r, w') \<Longrightarrow> length (events w') < length (events w)"
  by (auto simp: fetch_def dest: settle_events)

text \<open>
  The \<open>while\<close> loop of \<open>fetchReplies\<close>. \<open>break\<close> and the end of the token chain both
  leave the loop normally (\<open>Inr ()\<close>); an exception leaves the whole function.
\<close>

function fetchReplies_loop :: "jsstring \<Rightarrow> jsstring \<Rightarrow> jsstring \<Rightarrow> world \<Rightarrow> unit outcome" where
  "fetchReplies_loop parent vid pageToken w =
     (case fetch \<lparr>req_endpoint = Comments, req_id = parent,
                  req_pageToken = (if pageToken = [] then None else Some pageToken)\<rparr> w of
        None \<Rightarrow> None
      | Some (res, w1) \<Rightarrow>
          if \<not> ok res then Some (Inr (), w1)
          else (case res_body res of
                  NotJson \<Rightarrow> Some (Inl SyntaxError, w1)
                | CommentItems items nextPageToken \<Rightarrow>
                    (case map_items (\<lambda>item. mapApiCommentToLocal item vid (Some parent)) items of
                       Inl e \<Rightarrow> Some (Inl e, w1)
                     | Inr replies \<Rightarrow>
                         (case or_null nextPageToken of
                            None \<Rightarrow> Some (Inr (), w1\<lparr>comments := bulkPut replies (comments w1)\<rparr>)
                          | Some t \<Rightarrow>
                              fetchReplies_loop parent vid t
                                (w1\<lparr>comments := bulkPut replies (comments w1)\<rparr>)))
                | _ \<Rightarrow> Some (Inl TypeError, w1)))"
  by pat_completeness auto
termination
  by (relation "measure (\<lambda>(parent, vid, pageToken, w). length (events w))")
     (auto dest: fetch_events)

definition fetchReplies :: "jsstring \<Rightarrow> jsstring \<Rightarrow> jsstring \<Rightarrow> world \<Rightarrow> unit outcome" where
  "fetchReplies parent vid apiKey =
     enqueueRequest (\<lambda>w.
       case fetchReplies_loop parent vid [] w of
         None \<Rightarrow> None
       | Some (Inl e, w1) \<Rightarrow> Some (Inl e, w1)
       | Some (Inr u, w1) \<Rightarrow>
           Some (Inr (), w1\<lparr>comments := update_repliesFetched parent (comments w1)\<rparr>))"

section \<open>Dashboard.tsx\<close>

text \<open>
  The query \<open>candidates\<close>:
  \<^verbatim>\<open>db.comments.where('[videoId+score]').between([videoId, 1], [videoId, 100], true, true)
     .reverse().sortBy('score')\<close>.
  A key of the compound index is the pair of \<open>videoId\<close> and \<open>score\<close>, and pairs are
  compared component by component. The rows of the range come in the order of the index
  (by score, rows of equal score by primary key), \<open>reverse()\<close> turns that order round,
  and \<open>sortBy\<close> on a reversed collection sorts the array in descending order with the
  stable sort of the language.
\<close>

definition key_le :: "jsstring \<times> int \<Rightarrow> jsstring \<times> int \<Rightarrow> bool" where
  "key_le k1 k2 \<longleftrightarrow> fst k1 < fst k2 \<or> (fst k1 = fst k2 \<and> snd k1 \<le> snd k2)"

definition between :: "jsstring \<times> int \<Rightarrow> jsstring \<times> int \<Rightarrow> Comment list \<Rightarrow> Comment list" where
  "between lower upper rows =
     sort_key comment_score
       (filter (\<lambda>c. key_le lower (videoId c, comment_score c) \<and>
                    key_le (videoId c, comment_score c) upper) rows)"

definition sortBy_score_reversed :: "Comment list \<Rightarrow> Comment list" where
  "sortBy_score_reversed cs = sort_key (\<lambda>c. - comment_score c) cs"

definition candidates :: "jsstring \<Rightarrow> world \<Rightarrow> Comment list" where
  "candidates vid w = sortBy_score_reversed (rev (between (vid, 1) (vid, 100) (comments w)))"

text \<open>
  The statements of \<open>handleSmartScan\<close> and of \<open>handleDeepScan\<close> that run before the
  first \<open>await\<close>. \<open>handleDeepScan\<close> spreads \<open>stats\<close>, the state of the render it was
  created in, which is the current state when the button is pressed.
\<close>

definition smart_start :: "world \<Rightarrow> world" where
  "smart_start w =
     setStats (\<lambda>prev. prev\<lparr>status := Running, mode := Some Smart, error := None\<rparr>)
       (w\<lparr>cancelScanRef := False\<rparr>)"

definition deep_start :: "world \<Rightarrow> world" where
  "deep_start w =
     setStats (\<lambda>prev. (stats w)\<lparr>status := Running, mode := Some Deep\<rparr>)
       (w\<lparr>cancelScanRef := False\<rparr>)"

text \<open>\<open>e.message\<close>.\<close>

definition message :: "exn \<Rightarrow> message_text" where
  "message e = (case e of QuotaExceeded \<Rightarrow> Text (js ''Quota Exceeded'')
                        | NetworkError \<Rightarrow> Text (js ''Network Error'')
                        | TypeError \<Rightarrow> Engine_text TypeError
                        | SyntaxError \<Rightarrow> Engine_text SyntaxError)"

definition catch_error :: "exn \<Rightarrow> world \<Rightarrow> world" where
  "catch_error e w = setStats (\<lambda>prev. prev\<lparr>status := Error, error := Some (message e)\<rparr>) w"

definition onProgress_stats :: "int \<Rightarrow> world \<Rightarrow> world" where
  "onProgress_stats count w = setStats (\<lambda>prev. prev\<lparr>fetchedCount := fetchedCount prev + count\<rparr>) w"

text \<open>\<open>!c.parentId\<close>: the parent is \<open>null\<close> or the empty string.\<close>

definition no_parent :: "Comment \<Rightarrow> bool" where
  "no_parent c \<longleftrightarrow> parentId c = None \<or> parentId c = Some []"

definition promisingThreads :: "jsstring \<Rightarrow> world \<Rightarrow> Comment list" where
  "promisingThreads vid w =
     where_videoId vid (\<lambda>c. no_parent c \<and> \<not> repliesFetched c \<and> 0 < replyCount c \<and> 10 < comment_score c)
       (comments w)"

fun expand_promising :: "jsstring \<Rightarrow> jsstring \<Rightarrow> Comment list \<Rightarrow> world \<Rightarrow> unit outcome" where
  "expand_promising vid apiKey [] w = Some (Inr (), w)"
| "expand_promising vid apiKey (thread # threads) w =
     (if cancelScanRef w then Some (Inr (), w)
      else case fetchReplies (comment_id thread) vid apiKey w of
             None \<Rightarrow> None
           | Some (Inl e, w1) \<Rightarrow> Some (Inl e, w1)
           | Some (Inr u, w1) \<Rightarrow> expand_promising vid apiKey threads w1)"

declare fetchReplies_loop.simps [simp del]

lemma fetchReplies_loop_step:
  assumes "fetchReplies_loop parent vid tok w = Some (r, w')"
  shows "\<exists>res w1. fetch \<lparr>req_endpoint = Comments, req_id = parent,
                           req_pageToken = (if tok = [] then None else Some tok)\<rparr> w = Some (res, w1) \<and>
           (events w' = events w1 \<or>
            (\<exists>t cs. fetchReplies_loop parent vid t (w1\<lparr>comments := cs\<rparr>) = Some (r, w')))"
  using assms
  by (subst (asm) fetchReplies_loop.simps)
     (auto split: option.splits if_splits body.splits sum.splits prod.splits
     )

lemma fetchReplies_loop_events:
  "fetchReplies_loop parent vid tok w = Some (r, w') \<Longrightarrow> length (events w') < length (events w)"
proof (induction "length (events w)" arbitrary: w tok rule: less_induct)
  case less
  from fetchReplies_loop_step [OF less.prems] obtain res w1 where
    f: "fetch \<lparr>req_endpoint = Comments, req_id = parent,
               req_pageToken = (if tok = [] then None else Some tok)\<rparr> w = Some (res, w1)" and
    d: "events w' = events w1 \<or>
        (\<exists>t cs. fetchReplies_loop parent vid t (w1\<lparr>comments := cs\<rparr>) = Some (r, w'))"
    by blast
  from fetch_events [OF f] have lt: "length (events w1) < length (events w)" .
  from d show ?case
  proof
    assume "events w' = events w1"
    with lt show ?thesis by simp
  next
    assume "\<exists>t cs. fetchReplies_loop parent vid t (w1\<lparr>comments := cs\<rparr>) = Some (r, w')"
    then obtain t cs where "fetchReplies_loop parent vid t (w1\<lparr>comments := cs\<rparr>) = Some (r, w')"
      by blast
    from less.hyps [OF _ this] lt show ?thesis by simp
  qed
qed

lemma fetchReplies_events:
  "fetchReplies parent vid apiKey w = Some (r, w') \<Longrightarrow> length (events w') < length (events w)"
  by (auto simp: fetchReplies_def enqueueRequest_def split: option.splits sum.splits prod.splits
           dest: fetchReplies_loop_events)

lemma expand_promising_events:
  "expand_promising vid apiKey threads w = Some (r, w') \<Longrightarrow> length (events w') \<le> length (events w)"
proof (induction threads arbitrary: w)
  case Nil
  then show ?case by simp
next
  case (Cons thread threads)
  show ?case
  proof (cases "cancelScanRef w")
    case True
    with Cons.prems show ?thesis by simp
  next
    case False
    with Cons.prems obtain u w1 where
      f: "fetchReplies (comment_id thread) vid apiKey w = Some (Inr u, w1) \<and>
          expand_promising vid apiKey threads w1 = Some (r, w') \<or>
          fetchReplies (comment_id thread) vid apiKey w = Some (r, w')"
      by (auto split: option.splits sum.splits prod.splits)
    then show ?thesis
      using Cons.IH fetchReplies_events by (metis less_imp_le_nat le_trans)
  qed
qed

lemma events_setStats [simp]: "events (setStats f w) = events w"
  by (simp add: setStats_def)

lemma events_onProgress_stats [simp]: "events (onProgress_stats n w) = events w"
  by (simp add: onProgress_stats_def)

lemma fetchCommentThreads_events:
  "fetchCommentThreads vid apiKey tok onProgress_stats w = Some (r, w') \<Longrightarrow>
   length (events w') < length (events w)"
  by (auto simp: fetchCommentThreads_def enqueueRequest_def
           split: option.splits sum.splits prod.splits if_splits body.splits
           dest: fetch_events)

text \<open>The \<open>while\<close> loop of \<open>handleSmartScan\<close>; \<open>None\<close> for the page token is \<open>null\<close>.\<close>

function smart_loop :: "jsstring \<Rightarrow> jsstring \<Rightarrow> jsstring option \<Rightarrow> world \<Rightarrow> unit outcome" where
  "smart_loop vid apiKey pageToken w =
     (case pageToken of
        None \<Rightarrow> Some (Inr (), w)
      | Some tok \<Rightarrow>
          if cancelScanRef w then Some (Inr (), w)
          else (case fetchCommentThreads vid apiKey tok onProgress_stats w of
                  None \<Rightarrow> None
                | Some (Inl e, w1) \<Rightarrow> Some (Inl e, w1)
                | Some (Inr pageToken', w1) \<Rightarrow>
                    (case expand_promising vid apiKey (promisingThreads vid w1) w1 of
                       None \<Rightarrow> None
                     | Some (Inl e, w2) \<Rightarrow> Some (Inl e, w2)
                     | Some (Inr u, w2) \<Rightarrow> smart_loop vid apiKey pageToken' w2)))"
  by pat_completeness auto
termination
proof (relation "measure (\<lambda>(vid, apiKey, pageToken, w). length (events w))", goal_cases)
  case 1
  show ?case by simp
next
  case (2 vid apiKey pageToken w tok x r w1 tok' r2 w2 x2 u)
  then show ?case
    using fetchCommentThreads_events expand_promising_events
    by (metis (no_types, lifting) case_prod_conv in_measure le_less_trans)
qed

declare smart_loop.simps [simp del]

definition handleSmartScan :: "jsstring \<Rightarrow> jsstring \<Rightarrow> world \<Rightarrow> world option" where
  "handleSmartScan vid apiKey w =
     (let w0 = smart_start w in
      case (case videos w0 vid of
              None \<Rightarrow> map_option (\<lambda>(r, w1). (map_sum id (\<lambda>meta. ()) r, w1)) (fetchVideoDetails vid apiKey w0)
            | Some currentMeta \<Rightarrow> Some (Inr (), w0)) of
        None \<Rightarrow> None
      | Some (Inl e, w1) \<Rightarrow> Some (catch_error e w1)
      | Some (Inr u, w1) \<Rightarrow>
          (case smart_loop vid apiKey (Some []) w1 of
             None \<Rightarrow> None
           | Some (Inl e, w2) \<Rightarrow> Some (catch_error e w2)
           | Some (Inr u, w2) \<Rightarrow> Some (setStats (\<lambda>prev. prev\<lparr>status := Complete\<rparr>) w2)))"

text \<open>The \<open>for\<close> loop of \<open>handleDeepScan\<close>.\<close>

fun deep_loop :: "jsstring \<Rightarrow> jsstring \<Rightarrow> Comment list \<Rightarrow> world \<Rightarrow> unit outcome" where
  "deep_loop vid apiKey [] w = Some (Inr (), w)"
| "deep_loop vid apiKey (t # threads) w =
     (if cancelScanRef w then Some (Inr (), w)
      else case fetchReplies (comment_id t) vid apiKey w of
             None \<Rightarrow> None
           | Some (Inl e, w1) \<Rightarrow> Some (Inl e, w1)
           | Some (Inr u, w1) \<Rightarrow>
               deep_loop vid apiKey threads
                 (setStats (\<lambda>prev. prev\<lparr>fetchedCount := fetchedCount prev + replyCount t\<rparr>) w1))"

definition handleDeepScan :: "jsstring \<Rightarrow> jsstring \<Rightarrow> world \<Rightarrow> world option" where
  "handleDeepScan vid apiKey w =
     (let w0 = deep_start w;
          threads = where_videoId vid (\<lambda>c. no_parent c \<and> 0 < replyCount c \<and> \<not> repliesFetched c)
                      (comments w0)
      in case deep_loop vid apiKey threads w0 of
           None \<Rightarrow> None
         | Some (Inl e, w1) \<Rightarrow> Some (catch_error e w1)
         | Some (Inr u, w1) \<Rightarrow> Some (setStats (\<lambda>prev. prev\<lparr>status := Complete\<rparr>) w1))"

definition handleClear :: "jsstring \<Rightarrow> world \<Rightarrow> world" where
  "handleClear vid w =
     setStats (\<lambda>prev. \<lparr>fetchedCount = 0, totalEstimated = 0, status = Idle, mode = None, error = None\<rparr>)
       (resetDatabaseForVideo vid w)"

section \<open>The request queue\<close>













section \<open>Facts about the matcher\<close>

definition wf_state :: "jsstring \<Rightarrow> mstate \<Rightarrow> bool" where
  "wf_state S x \<longleftrightarrow>
     endIndex x \<le> length S \<and> rest x = drop (endIndex x) S \<and>
     (\<forall>k < length (captures x). \<forall>s e. captures x ! k = Some (s, e) \<longrightarrow> s \<le> e \<and> e \<le> endIndex x)"

lemma length_clear_captures [simp]: "length (clear_captures ks cs) = length cs"
  unfolding clear_captures_def by (induction ks arbitrary: cs) auto

lemma clear_captures_nth:
  "k < length cs \<Longrightarrow> clear_captures ks cs ! k = Some v \<Longrightarrow> cs ! k = Some v"
  unfolding clear_captures_def
proof (induction ks arbitrary: cs)
  case Nil
  then show ?case by simp
next
  case (Cons a ks)
  from Cons.prems have "fold (\<lambda>k cs. cs[k := None]) ks (cs[a := None]) ! k = Some v" by simp
  with Cons.IH [of "cs[a := None]"] Cons.prems(1) have "cs[a := None] ! k = Some v" by simp
  then show ?case by (cases "a = k") (use Cons.prems(1) in auto)
qed

lemma wf_state_clear: "wf_state S x \<Longrightarrow> wf_state S (x\<lparr>captures := clear_captures ks (captures x)\<rparr>)"
  unfolding wf_state_def by (auto dest: clear_captures_nth)

lemma wf_state_advance:
  assumes "wf_state S x" "rest x = ch # r"
  shows "wf_state S (x\<lparr>endIndex := endIndex x + 1, rest := r\<rparr>)"
proof -
  from assms have d: "drop (endIndex x) S = ch # r" by (simp add: wf_state_def)
  then have "endIndex x < length S" by (metis drop_all list.distinct(1) not_le)
  moreover from d have "drop (Suc (endIndex x)) S = r" by (metis drop_Suc tl_drop list.sel(3))
  ultimately show ?thesis using assms(1) unfolding wf_state_def by (auto simp: le_Suc_eq)
qed

lemma wf_state_group:
  assumes "wf_state S y" "endIndex x \<le> endIndex y"
  shows "wf_state S (y\<lparr>captures := (captures y)[k := Some (endIndex x, endIndex y)]\<rparr>)"
proof -
  have "s \<le> e \<and> e \<le> endIndex y"
    if "ka < length (captures y)" "(captures y)[k := Some (endIndex x, endIndex y)] ! ka = Some (s, e)"
    for ka s e
  proof (cases "ka = k")
    case True
    with that assms(2) show ?thesis by simp
  next
    case False
    with that assms(1) show ?thesis by (simp add: wf_state_def)
  qed
  with assms(1) show ?thesis by (simp add: wf_state_def)
qed

lemma matcher_cont:
  "matcher ic r x c = Some z \<Longrightarrow> wf_state S x \<Longrightarrow>
   \<exists>y. c y = Some z \<and> wf_state S y \<and> endIndex x \<le> endIndex y \<and> length (captures y) = length (captures x)"
proof (induction ic r x c arbitrary: z rule: matcher.induct)
  case (1 ic x c)
  then show ?case by auto
next
  case (2 ic invert A x c)
  then show ?case
    by (auto split: list.splits if_splits intro!: exI dest: wf_state_advance)
next
  case (3 ic a b x c)
  from "3.prems" have "matcher ic a x (\<lambda>y. matcher ic b y c) = Some z" by simp
  from "3.IH"(2) [OF this "3.prems"(2)] obtain y where
    y: "matcher ic b y c = Some z" "wf_state S y" "endIndex x \<le> endIndex y"
       "length (captures y) = length (captures x)" by blast
  from "3.IH"(1) [OF y(1,2)] y(3,4) show ?case by force
next
  case (4 ic a b x c)
  show ?case
  proof (cases "matcher ic a x c")
    case None
    with "4.prems" have "matcher ic b x c = Some z" by simp
    from "4.IH"(2) [OF None this "4.prems"(2)] show ?thesis .
  next
    case (Some z')
    with "4.prems" have "matcher ic a x c = Some z" by simp
    from "4.IH"(1) [OF this "4.prems"(2)] show ?thesis .
  qed
next
  case (5 ic k r x c)
  from "5.prems" have
    "matcher ic r x (\<lambda>y. c (y\<lparr>captures := (captures y)[k := Some (endIndex x, endIndex y)]\<rparr>)) = Some z"
    by simp
  from "5.IH" [OF this "5.prems"(2)] obtain y where
    y: "c (y\<lparr>captures := (captures y)[k := Some (endIndex x, endIndex y)]\<rparr>) = Some z"
       "wf_state S y" "endIndex x \<le> endIndex y" "length (captures y) = length (captures x)" by blast
  show ?case
    by (rule exI [of _ "y\<lparr>captures := (captures y)[k := Some (endIndex x, endIndex y)]\<rparr>"])
       (use y wf_state_group [OF y(2,3)] in simp)
next
  case (6 ic r mn mx greedy x c)
  define d where "d = (\<lambda>y. if mn = 0 \<and> length (rest x) \<le> length (rest y) then None
                      else matcher ic (Quant r (mn - 1) (map_option (\<lambda>k. k - 1) mx) greedy) y c)"
  define xr where "xr = x\<lparr>captures := clear_captures (groups r) (captures x)\<rparr>"
  have xr: "wf_state S xr" "endIndex xr = endIndex x" "length (captures xr) = length (captures x)"
    using "6.prems"(2) by (simp_all add: xr_def wf_state_clear)
  show ?case
  proof (cases "mx = Some 0")
    case True
    with "6.prems" show ?thesis by auto
  next
    case False
    have via_d: ?thesis
      if "\<exists>y. d y = Some z \<and> wf_state S y \<and> endIndex xr \<le> endIndex y \<and>
              length (captures y) = length (captures xr)"
    proof -
      from that obtain y where y: "d y = Some z" "wf_state S y" "endIndex xr \<le> endIndex y"
        "length (captures y) = length (captures xr)" by blast
      from y(1) have g: "\<not> (mn = 0 \<and> length (rest x) \<le> length (rest y))"
        and m: "matcher ic (Quant r (mn - 1) (map_option (\<lambda>k. k - 1) mx) greedy) y c = Some z"
        by (auto simp: d_def split: if_splits)
      from "6.IH"(1) [OF False g m y(2)] y(3,4) xr(2,3) show ?thesis by force
    qed
    from "6.prems"(1) False have run:
      "(if mn \<noteq> 0 then matcher ic r xr d
        else if \<not> greedy then (case c x of Some z \<Rightarrow> Some z | None \<Rightarrow> matcher ic r xr d)
        else (case matcher ic r xr d of Some z \<Rightarrow> Some z | None \<Rightarrow> c x)) = Some z"
      unfolding d_def xr_def by (subst (asm) matcher.simps(6)) (simp add: Let_def del: matcher.simps)
    show ?thesis
    proof (cases "mn \<noteq> 0")
      case True
      with run have "matcher ic r xr d = Some z" by simp
      from "6.IH"(2) [OF False d_def xr_def True this xr(1)] show ?thesis by (rule via_d)
    next
      case mn0: False
      show ?thesis
      proof (cases greedy)
        case True
        show ?thesis
        proof (cases "matcher ic r xr d")
          case None
          with run mn0 True have "c x = Some z" by simp
          with "6.prems"(2) show ?thesis by auto
        next
          case (Some z')
          with run mn0 True have "matcher ic r xr d = Some z" by simp
          from "6.IH"(4) [OF False d_def xr_def mn0 _ this xr(1)] True show ?thesis
            by (intro via_d) simp
        qed
      next
        case ng: False
        show ?thesis
        proof (cases "c x")
          case None
          with run mn0 ng have "matcher ic r xr d = Some z" by simp
          from "6.IH"(3) [OF False d_def xr_def mn0 ng None this xr(1)] show ?thesis by (rule via_d)
        next
          case (Some z')
          with run mn0 ng have "c x = Some z" by simp
          with "6.prems"(2) show ?thesis by auto
        qed
      qed
    qed
  qed
qed

declare matcher.simps [simp del]
declare search.simps [simp del]

fun last_group :: "node \<Rightarrow> nat option" where
  "last_group (Seq a b) = last_group b"
| "last_group (Group k r) = Some k"
| "last_group r = None"

lemma matcher_last_group:
  "last_group r = Some k \<Longrightarrow> matcher ic r x c = Some z \<Longrightarrow> wf_state S x \<Longrightarrow>
   \<exists>y s. c (y\<lparr>captures := (captures y)[k := Some (s, endIndex y)]\<rparr>) = Some z \<and> wf_state S y \<and>
         endIndex x \<le> s \<and> s \<le> endIndex y \<and> length (captures y) = length (captures x)"
proof (induction r arbitrary: x c)
  case (Seq a b)
  from Seq.prems(2) have "matcher ic a x (\<lambda>y. matcher ic b y c) = Some z"
    by (simp add: matcher.simps)
  from matcher_cont [OF this Seq.prems(3)] obtain y1 where
    y1: "matcher ic b y1 c = Some z" "wf_state S y1" "endIndex x \<le> endIndex y1"
        "length (captures y1) = length (captures x)" by blast
  from Seq.prems(1) have "last_group b = Some k" by simp
  from Seq.IH(2) [OF this y1(1,2)] y1(3,4) show ?case
    by (metis le_trans)
next
  case (Group k' r)
  then have k: "k' = k" by simp
  from Group.prems(2) have
    "matcher ic r x (\<lambda>y. c (y\<lparr>captures := (captures y)[k := Some (endIndex x, endIndex y)]\<rparr>)) = Some z"
    by (simp add: matcher.simps k)
  from matcher_cont [OF this Group.prems(3)] show ?case by blast
qed simp_all

lemma search_Some:
  "search ic r i s = Some mt \<Longrightarrow> s = drop i S \<Longrightarrow> i \<le> length S \<Longrightarrow>
   \<exists>j y. i \<le> j \<and> j \<le> length S \<and>
     matcher ic r \<lparr>endIndex = j, rest = drop j S,
                   captures = replicate (Suc (length (groups r))) None\<rparr> Some = Some y \<and>
     mt = \<lparr>index = j, end_index = endIndex y, match_captures = captures y\<rparr>"
proof (induction ic r i s rule: search.induct)
  case (1 ic r i s)
  let ?x = "\<lparr>endIndex = i, rest = s, captures = replicate (Suc (length (groups r))) None\<rparr>"
  show ?case
  proof (cases "matcher ic r ?x Some")
    case (Some y)
    with "1.prems" show ?thesis
      by (subst (asm) search.simps) auto
  next
    case None
    with "1.prems"(1) obtain ch s' where s: "s = ch # s'" and r: "search ic r (Suc i) s' = Some mt"
      by (subst (asm) search.simps) (auto split: list.splits)
    from s "1.prems"(2) have "i < length S" by (metis drop_all list.distinct(1) not_le)
    moreover from s "1.prems"(2) have "s' = drop (Suc i) S" by (metis drop_Suc tl_drop list.sel(3))
    ultimately show ?thesis
      using "1.IH" [OF None s r] by (metis Suc_leD Suc_leI)
  qed
qed

lemma wf_state_init: "i \<le> length S \<Longrightarrow> wf_state S \<lparr>endIndex = i, rest = drop i S, captures = replicate n None\<rparr>"
  by (simp add: wf_state_def)

lemma exec_nonglobal:
  "\<not> global R \<Longrightarrow> RegExpBuiltinExec R li S = (search (ignoreCase R) (pattern R) 0 S, li)"
  by (simp add: RegExpBuiltinExec_def split: option.splits)

lemma search_last_group:
  assumes "search ic r 0 S = Some mt" "last_group r = Some k" "k \<le> length (groups r)"
  shows "\<exists>s. match_captures mt ! k = Some (s, end_index mt) \<and> k < length (match_captures mt) \<and>
             index mt \<le> s \<and> s \<le> end_index mt \<and> end_index mt \<le> length S"
proof -
  from search_Some [OF assms(1), of S] obtain j y where
    j: "j \<le> length S" and
    m: "matcher ic r \<lparr>endIndex = j, rest = drop j S,
                       captures = replicate (Suc (length (groups r))) None\<rparr> Some = Some y" and
    mt: "mt = \<lparr>index = j, end_index = endIndex y, match_captures = captures y\<rparr>" by auto
  from matcher_last_group [OF assms(2) m wf_state_init [OF j]] obtain y' s where
    y': "y = y'\<lparr>captures := (captures y')[k := Some (s, endIndex y')]\<rparr>" "wf_state S y'"
        "j \<le> s" "s \<le> endIndex y'" "length (captures y') = Suc (length (groups r))" by auto
  with assms(3) mt show ?thesis by (auto simp: wf_state_def)
qed

lemma capture_defined:
  assumes "search ic r 0 S = Some mt" "last_group r = Some k" "k \<le> length (groups r)"
  shows "\<exists>s. capture S mt k = Some (substring S s (end_index mt)) \<and>
             index mt \<le> s \<and> s \<le> end_index mt \<and> end_index mt \<le> length S"
  using search_last_group [OF assms] by (auto simp: capture_def)

definition fires :: "regexp \<Rightarrow> jsstring \<Rightarrow> bool" where
  "fires R text = fst (RegExp_test R 0 text)"

lemma groups_lit [simp]: "groups (lit s) = []"
  by (induction s) auto

lemma groups_foldr_Alt: "groups (foldr (\<lambda>l r. Alt (lit l) r) ls b) = groups b"
  by (induction ls) auto

lemma groups_alternatives [simp]: "groups (alternatives ls) = []"
  by (simp add: alternatives_def groups_foldr_Alt)

lemma groups_atoms [simp]:
  "groups ws = []" "groups dot = []" "groups upper_AZ = []" "groups lower_az = []"
  "groups (star r) = groups r" "groups (plus r) = groups r" "groups (opt r) = groups r"
  "groups (lazy_star r) = groups r"
  by (simp_all add: ws_def dot_def upper_AZ_def lower_az_def star_def plus_def opt_def lazy_star_def)

lemma SOURCE_shape [simp]:
  "last_group (pattern SOURCE) = Some 2" "length (groups (pattern SOURCE)) = 2"
  "\<not> global SOURCE" "ignoreCase SOURCE"
  by (simp_all add: SOURCE_def)

lemma HELPER_shape [simp]:
  "last_group (pattern HELPER) = Some 1" "length (groups (pattern HELPER)) = 2"
  "\<not> global HELPER" "\<not> ignoreCase HELPER"
  by (simp_all add: HELPER_def)

lemma BRACKET_shape [simp]: "\<not> global BRACKET" "\<not> ignoreCase BRACKET"
  by (simp_all add: BRACKET_def)

lemma QUESTION_shape [simp]: "\<not> global QUESTION" "ignoreCase QUESTION"
  by (simp_all add: QUESTION_def)

lemma fires_search: "\<not> global R \<Longrightarrow> fires R text \<longleftrightarrow> search (ignoreCase R) (pattern R) 0 text \<noteq> None"
  by (auto simp: fires_def RegExp_test_def exec_nonglobal split: option.splits)

lemma RegExp_test_nonglobal: "\<not> global R \<Longrightarrow> RegExp_test R li S = (fires R S, li)"
  by (simp add: fires_def RegExp_test_def exec_nonglobal split: option.splits)

definition source_highlights :: "jsstring \<Rightarrow> highlight list" where
  "source_highlights text =
     (case search True (pattern SOURCE) 0 text of
        None \<Rightarrow> []
      | Some mt \<Rightarrow>
          (let value_part = substring text (fst (the (match_captures mt ! 2))) (end_index mt);
               valueStart = int (index mt) + indexOf (matched text mt) value_part
           in [\<lparr>hl_start = valueStart, hl_end = valueStart + int (length value_part),
                 hl_type = source\<rparr>]))"

definition helper_highlights :: "jsstring \<Rightarrow> highlight list" where
  "helper_highlights text =
     (case search False (pattern HELPER) 0 text of
        None \<Rightarrow> []
      | Some mt \<Rightarrow>
          (let title_part = substring text (fst (the (match_captures mt ! 1))) (end_index mt);
               titleStart = int (index mt) + indexOf (matched text mt) title_part
           in [\<lparr>hl_start = titleStart, hl_end = titleStart + int (length title_part),
                 hl_type = helper\<rparr>]))"

definition bracket_highlights :: "jsstring \<Rightarrow> highlight list" where
  "bracket_highlights text =
     (case search False (pattern BRACKET) 0 text of
        None \<Rightarrow> []
      | Some mt \<Rightarrow>
          [\<lparr>hl_start = int (index mt), hl_end = int (index mt) + int (length (matched text mt)),
            hl_type = bracket\<rparr>])"

lemma source_block_eq:
  "source_block text (search True (pattern SOURCE) 0 text) acc =
     Inr \<lparr>score = score acc + (if fires SOURCE text then 80 else 0),
          highlights = highlights acc @ source_highlights text\<rparr>"
proof (cases "search True (pattern SOURCE) 0 text")
  case None
  then show ?thesis by (simp add: source_block_def fires_search source_highlights_def)
next
  case (Some mt)
  from search_last_group [OF Some, of 2] obtain s where
    "match_captures mt ! 2 = Some (s, end_index mt)" "2 < length (match_captures mt)" by auto
  with Some show ?thesis
    by (simp add: source_block_def fires_search Let_def source_highlights_def capture_def)
qed

lemma helper_block_eq:
  "helper_block text (search False (pattern HELPER) 0 text) acc =
     Inr \<lparr>score = score acc + (if fires HELPER text then 50 else 0),
          highlights = highlights acc @ helper_highlights text\<rparr>"
proof (cases "search False (pattern HELPER) 0 text")
  case None
  then show ?thesis by (simp add: helper_block_def fires_search helper_highlights_def)
next
  case (Some mt)
  from search_last_group [OF Some, of 1] obtain s where
    "match_captures mt ! 1 = Some (s, end_index mt)" "1 < length (match_captures mt)" by auto
  with Some show ?thesis
    by (simp add: helper_block_def fires_search Let_def helper_highlights_def capture_def)
qed

lemma bracket_block_eq:
  "bracket_block text (search False (pattern BRACKET) 0 text) acc =
     \<lparr>score = score acc + (if fires BRACKET text then 40 else 0),
      highlights = highlights acc @ bracket_highlights text\<rparr>"
  by (cases "search False (pattern BRACKET) 0 text")
     (simp_all add: bracket_block_def fires_search bracket_highlights_def)

definition total_score :: "jsstring \<Rightarrow> int" where
  "total_score text =
     (if fires SOURCE text then 80 else 0) + (if fires HELPER text then 50 else 0) +
     (if fires BRACKET text then 40 else 0) + (if fires QUESTION text then 10 else 0)"

lemma analyzeComment_st_eq:
  "analyzeComment_st text st =
     (Inr \<lparr>score = min (total_score text) 100,
           highlights = source_highlights text @ helper_highlights text @ bracket_highlights text\<rparr>, st)"
  unfolding analyzeComment_st_def String_match_def
  by (simp add: exec_nonglobal RegExp_test_nonglobal source_block_eq helper_block_eq
        bracket_block_eq total_score_def Let_def)

lemma analyzeComment_eq:
  "analyzeComment text =
     Inr \<lparr>score = min (total_score text) 100,
          highlights = source_highlights text @ helper_highlights text @ bracket_highlights text\<rparr>"
  by (simp add: analyzeComment_def analyzeComment_st_eq)

lemma source_highlights_kind:
  "map hl_type (source_highlights text) = (if fires SOURCE text then [source] else [])"
  by (simp add: source_highlights_def fires_search Let_def split: option.splits)

lemma helper_highlights_kind:
  "map hl_type (helper_highlights text) = (if fires HELPER text then [helper] else [])"
  by (simp add: helper_highlights_def fires_search Let_def split: option.splits)

lemma bracket_highlights_kind:
  "map hl_type (bracket_highlights text) = (if fires BRACKET text then [bracket] else [])"
  by (simp add: bracket_highlights_def fires_search split: option.splits)

text \<open>
  A matcher only ever calls its continuation on states at or after its own, so two
  continuations that agree there give the same result; with it, the test of
  \<open>RepeatMatcher\<close> can be read as the equality test of the language.
\<close>

lemma matcher_cont_agree:
  "wf_state S x \<Longrightarrow> (\<And>y. wf_state S y \<Longrightarrow> endIndex x \<le> endIndex y \<Longrightarrow> c y = c' y) \<Longrightarrow>
   matcher ic r x c = matcher ic r x c'"
proof (induction ic r x c arbitrary: c' rule: matcher.induct)
  case (1 ic x c)
  then show ?case by (simp add: matcher.simps)
next
  case (2 ic invert A x c)
  show ?case
  proof (cases "rest x")
    case Nil
    then show ?thesis by (simp add: matcher.simps)
  next
    case (Cons ch r)
    from wf_state_advance [OF "2.prems"(1) Cons]
    have "c (x\<lparr>endIndex := endIndex x + 1, rest := r\<rparr>) = c' (x\<lparr>endIndex := endIndex x + 1, rest := r\<rparr>)"
      by (intro "2.prems"(2)) simp_all
    with Cons show ?thesis by (simp add: matcher.simps)
  qed
next
  case (3 ic a b x c)
  have "matcher ic a x (\<lambda>y. matcher ic b y c) = matcher ic a x (\<lambda>y. matcher ic b y c')"
  proof (rule "3.IH"(2) [OF "3.prems"(1)])
    fix y assume y: "wf_state S y" "endIndex x \<le> endIndex y"
    show "matcher ic b y c = matcher ic b y c'"
    proof (rule "3.IH"(1) [OF y(1)])
      fix z assume "wf_state S z" "endIndex y \<le> endIndex z"
      with y(2) show "c z = c' z" by (intro "3.prems"(2)) simp_all
    qed
  qed
  then show ?case by (simp add: matcher.simps)
next
  case (4 ic a b x c)
  have a: "matcher ic a x c = matcher ic a x c'"
    by (rule "4.IH"(1) [OF "4.prems"])
  show ?case
  proof (cases "matcher ic a x c")
    case None
    from "4.IH"(2) [OF None "4.prems"] a None show ?thesis by (simp add: matcher.simps)
  next
    case (Some z)
    with a have "matcher ic a x c' = Some z" by simp
    with Some show ?thesis by (simp add: matcher.simps)
  qed
next
  case (5 ic k r x c)
  have "matcher ic r x (\<lambda>y. c (y\<lparr>captures := (captures y)[k := Some (endIndex x, endIndex y)]\<rparr>)) =
        matcher ic r x (\<lambda>y. c' (y\<lparr>captures := (captures y)[k := Some (endIndex x, endIndex y)]\<rparr>))"
  proof (rule "5.IH" [OF "5.prems"(1)])
    fix y assume y: "wf_state S y" "endIndex x \<le> endIndex y"
    from wf_state_group [OF y] y(2)
    show "c (y\<lparr>captures := (captures y)[k := Some (endIndex x, endIndex y)]\<rparr>) =
          c' (y\<lparr>captures := (captures y)[k := Some (endIndex x, endIndex y)]\<rparr>)"
      by (intro "5.prems"(2)) simp_all
  qed
  then show ?case by (simp add: matcher.simps)
next
  case (6 ic r mn mx greedy x c)
  define d where "d = (\<lambda>c y. if mn = 0 \<and> length (rest x) \<le> length (rest y) then None
                      else matcher ic (Quant r (mn - 1) (map_option (\<lambda>k. k - 1) mx) greedy) y c)"
  define xr where "xr = x\<lparr>captures := clear_captures (groups r) (captures x)\<rparr>"
  have xr: "wf_state S xr" "endIndex xr = endIndex x"
    using "6.prems"(1) by (simp_all add: xr_def wf_state_clear)
  have unfold: "matcher ic (Quant r mn mx greedy) x c =
      (if mx = Some 0 then c x
       else if mn \<noteq> 0 then matcher ic r xr (d c)
       else if \<not> greedy then (case c x of Some z \<Rightarrow> Some z | None \<Rightarrow> matcher ic r xr (d c))
       else (case matcher ic r xr (d c) of Some z \<Rightarrow> Some z | None \<Rightarrow> c x))" for c
    unfolding d_def xr_def by (subst matcher.simps) (simp add: Let_def)
  have cx: "c x = c' x" by (rule "6.prems"(2) [OF "6.prems"(1)]) simp
  show ?case
  proof (cases "mx = Some 0")
    case True
    show ?thesis unfolding unfold using True cx by simp
  next
    case False
    have dd: "d c y = d c' y" if y: "wf_state S y" "endIndex xr \<le> endIndex y" for y
    proof (cases "mn = 0 \<and> length (rest x) \<le> length (rest y)")
      case True
      then show ?thesis by (simp add: d_def)
    next
      case g: False
      have "matcher ic (Quant r (mn - 1) (map_option (\<lambda>k. k - 1) mx) greedy) y c =
            matcher ic (Quant r (mn - 1) (map_option (\<lambda>k. k - 1) mx) greedy) y c'"
      proof (rule "6.IH"(1) [OF False g y(1)])
        fix z assume "wf_state S z" "endIndex y \<le> endIndex z"
        with y(2) xr(2) show "c z = c' z" by (intro "6.prems"(2)) simp_all
      qed
      moreover have "d k y = matcher ic (Quant r (mn - 1) (map_option (\<lambda>k. k - 1) mx) greedy) y k" for k
        unfolding d_def using g by (rule if_not_P)
      ultimately show ?thesis by simp
    qed
    have body: "matcher ic r xr (d c) = matcher ic r xr (d c')"
      if "mn \<noteq> 0 \<or> greedy \<or> c x = None"
    proof (cases "mn \<noteq> 0")
      case True
      show ?thesis
        by (rule "6.IH"(2) [OF False _ xr_def True xr(1), of "d c"]) (simp_all add: d_def dd [unfolded d_def])
    next
      case mn0: False
      show ?thesis
      proof (cases greedy)
        case True
        show ?thesis
          by (rule "6.IH"(4) [OF False _ xr_def mn0 _ xr(1), of "d c"])
             (simp_all add: d_def True dd [unfolded d_def])
      next
        case ng: False
        with that mn0 have "c x = None" by simp
        show ?thesis
          by (rule "6.IH"(3) [OF False _ xr_def mn0 ng \<open>c x = None\<close> xr(1), of "d c"])
             (simp_all add: d_def dd [unfolded d_def])
      qed
    qed
    show ?thesis
    proof (cases "mn \<noteq> 0 \<or> greedy \<or> c x = None")
      case True
      from body [OF True] have eq: "matcher ic r xr (d c) = matcher ic r xr (d c')" .
      show ?thesis unfolding unfold cx eq by (rule refl)
    next
      case other: False
      then obtain z where "c x = Some z" by auto
      with cx have "c' x = Some z" by simp
      with \<open>c x = Some z\<close> other False show ?thesis unfolding unfold by simp
    qed
  qed
qed

lemma matcher_Quant_guard:
  assumes "wf_state S x"
  shows "matcher ic (Quant r mn mx greedy) x c =
     (if mx = Some 0 then c x
      else
        let d = (\<lambda>y. if mn = 0 \<and> endIndex y = endIndex x then None
                      else matcher ic (Quant r (mn - 1) (map_option (\<lambda>k. k - 1) mx) greedy) y c);
            xr = x\<lparr>captures := clear_captures (groups r) (captures x)\<rparr>
        in if mn \<noteq> 0 then matcher ic r xr d
           else if \<not> greedy then (case c x of Some z \<Rightarrow> Some z | None \<Rightarrow> matcher ic r xr d)
           else (case matcher ic r xr d of Some z \<Rightarrow> Some z | None \<Rightarrow> c x))"
proof -
  define d where "d = (\<lambda>y. if mn = 0 \<and> length (rest x) \<le> length (rest y) then None
                      else matcher ic (Quant r (mn - 1) (map_option (\<lambda>k. k - 1) mx) greedy) y c)"
  define d' where "d' = (\<lambda>y. if mn = 0 \<and> endIndex y = endIndex x then None
                      else matcher ic (Quant r (mn - 1) (map_option (\<lambda>k. k - 1) mx) greedy) y c)"
  define xr where "xr = x\<lparr>captures := clear_captures (groups r) (captures x)\<rparr>"
  have xr: "wf_state S xr" "endIndex xr = endIndex x"
    using assms by (simp_all add: xr_def wf_state_clear)
  have "d y = d' y" if y: "wf_state S y" "endIndex xr \<le> endIndex y" for y
  proof -
    from y(1) assms have "length (rest y) = length S - endIndex y"
      "length (rest x) = length S - endIndex x" "endIndex y \<le> length S"
      by (simp_all add: wf_state_def)
    with y(2) xr(2) have "length (rest x) \<le> length (rest y) \<longleftrightarrow> endIndex y = endIndex x"
      by auto
    then show ?thesis by (simp add: d_def d'_def)
  qed
  with xr(1) have eq: "matcher ic r xr d = matcher ic r xr d'"
    by (rule matcher_cont_agree)
  have "matcher ic (Quant r mn mx greedy) x c =
      (if mx = Some 0 then c x
       else if mn \<noteq> 0 then matcher ic r xr d
       else if \<not> greedy then (case c x of Some z \<Rightarrow> Some z | None \<Rightarrow> matcher ic r xr d)
       else (case matcher ic r xr d of Some z \<Rightarrow> Some z | None \<Rightarrow> c x))"
    unfolding d_def xr_def by (subst matcher.simps) (simp add: Let_def)
  then show ?thesis
    unfolding eq unfolding d'_def xr_def by (simp add: Let_def)
qed

section \<open>Evaluating the patterns\<close>

lemma matcher_cong_weak: "x = x' \<Longrightarrow> matcher ic r x c = matcher ic r x' c"
  by simp

lemma found_range [simp]: "list_ex (\<lambda>a. a = c) [lo..<Suc hi] = (lo \<le> c \<and> c \<le> hi)"
  by (auto simp: list_ex_iff)

lemma matcher_atoms:
  "matcher ic (lit []) x c = c x"
  "matcher ic (lit (ch # cs)) x c = matcher ic (Seq (CharSet False [(of_char ch, of_char ch)]) (lit cs)) x c"
  "matcher ic ws x c = matcher ic (CharSet False white_space) x c"
  "matcher ic dot x c = matcher ic (CharSet True line_terminator) x c"
  "matcher ic upper_AZ x c = matcher ic (CharSet False [(65, 90)]) x c"
  "matcher ic lower_az x c = matcher ic (CharSet False [(97, 122)]) x c"
  "matcher ic (star r) x c = matcher ic (Quant r 0 None True) x c"
  "matcher ic (plus r) x c = matcher ic (Quant r 1 None True) x c"
  "matcher ic (opt r) x c = matcher ic (Quant r 0 (Some 1) True) x c"
  "matcher ic (lazy_star r) x c = matcher ic (Quant r 0 None False) x c"
  "matcher ic (alternatives [l]) x c = matcher ic (lit l) x c"
  "matcher ic (alternatives (l # l' # ls)) x c = matcher ic (Alt (lit l) (alternatives (l' # ls))) x c"
  by (simp_all add: ws_def dot_def upper_AZ_def lower_az_def star_def plus_def opt_def lazy_star_def
        alternatives_def matcher.simps)

lemmas regexp_eval =
  analyzeComment_def analyzeComment_st_def patterns_init_def String_match_def RegExp_test_def
  RegExpBuiltinExec_def search.simps matcher.simps matcher_atoms
  SOURCE_def HELPER_def BRACKET_def QUESTION_def source_labels_def source_separators_def
  white_space_def line_terminator_def found_def canonicalize_def clear_captures_def
  source_block_def helper_block_def bracket_block_def capture_def matched_def substring_def
  indexOf_def js_def Let_def

section \<open>The language of a pattern\<close>

fun wf_node :: "node \<Rightarrow> bool" where
  "wf_node Empty = True"
| "wf_node (CharSet invert A) = True"
| "wf_node (Seq a b) = (wf_node a \<and> wf_node b)"
| "wf_node (Alt a b) = (wf_node a \<and> wf_node b)"
| "wf_node (Group k r) = wf_node r"
| "wf_node (Quant r mn mx g) = (wf_node r \<and> (case mx of None \<Rightarrow> True | Some k \<Rightarrow> mn \<le> k))"

definition repeats :: "nat \<Rightarrow> nat option \<Rightarrow> jsstring set \<Rightarrow> jsstring set" where
  "repeats mn mx L =
     {concat ws | ws. mn \<le> length ws \<and> (case mx of None \<Rightarrow> True | Some k \<Rightarrow> length ws \<le> k) \<and>
                      set ws \<subseteq> L}"

fun lang :: "bool \<Rightarrow> node \<Rightarrow> jsstring set" where
  "lang ic Empty = {[]}"
| "lang ic (CharSet invert A) = {[ch] | ch. found ic A ch \<noteq> invert}"
| "lang ic (Seq a b) = {u @ v | u v. u \<in> lang ic a \<and> v \<in> lang ic b}"
| "lang ic (Alt a b) = lang ic a \<union> lang ic b"
| "lang ic (Group k r) = lang ic r"
| "lang ic (Quant r mn mx g) = repeats mn mx (lang ic r)"

abbreviation dec :: "nat option \<Rightarrow> nat option" where
  "dec mx \<equiv> map_option (\<lambda>k. k - 1) mx"

lemma repeats_zero: "repeats mn (Some 0) L = (if mn = 0 then {[]} else {})"
  by (auto simp: repeats_def)

lemma repeats_pos:
  assumes "0 < mn" "mx \<noteq> Some 0"
  shows "repeats mn mx L = {u @ v | u v. u \<in> L \<and> v \<in> repeats (mn - 1) (dec mx) L}"
proof (intro set_eqI iffI)
  fix w assume "w \<in> repeats mn mx L"
  then obtain ws where ws: "w = concat ws" "mn \<le> length ws"
    "case mx of None \<Rightarrow> True | Some k \<Rightarrow> length ws \<le> k" "set ws \<subseteq> L"
    by (auto simp: repeats_def)
  with assms obtain u us where u: "ws = u # us" by (cases ws) auto
  have "concat us \<in> repeats (mn - 1) (dec mx) L"
    unfolding repeats_def using ws u by (auto split: option.splits intro!: exI [of _ us])
  with ws u show "w \<in> {u @ v | u v. u \<in> L \<and> v \<in> repeats (mn - 1) (dec mx) L}" by auto
next
  fix w assume "w \<in> {u @ v | u v. u \<in> L \<and> v \<in> repeats (mn - 1) (dec mx) L}"
  then obtain u us where u: "w = u @ concat us" "u \<in> L" "mn - 1 \<le> length us"
    "case dec mx of None \<Rightarrow> True | Some k \<Rightarrow> length us \<le> k" "set us \<subseteq> L"
    by (auto simp: repeats_def)
  show "w \<in> repeats mn mx L"
    unfolding repeats_def using u assms
    by (auto split: option.splits intro!: exI [of _ "u # us"])
qed

lemma repeats_none:
  assumes "mx \<noteq> Some 0"
  shows "repeats 0 mx L = {[]} \<union> {u @ v | u v. u \<in> L \<and> u \<noteq> [] \<and> v \<in> repeats 0 (dec mx) L}"
proof (intro set_eqI iffI)
  fix w assume "w \<in> repeats 0 mx L"
  then obtain ws where ws: "w = concat ws"
    "case mx of None \<Rightarrow> True | Some k \<Rightarrow> length ws \<le> k" "set ws \<subseteq> L"
    by (auto simp: repeats_def)
  let ?ws = "filter (\<lambda>u. u \<noteq> []) ws"
  have c: "concat ?ws = concat ws" by (induction ws) auto
  have l: "length ?ws \<le> length ws" by simp
  show "w \<in> {[]} \<union> {u @ v | u v. u \<in> L \<and> u \<noteq> [] \<and> v \<in> repeats 0 (dec mx) L}"
  proof (cases ?ws)
    case Nil
    with c ws(1) show ?thesis by simp
  next
    case (Cons u us)
    then have "u \<in> set ?ws" "set us \<subseteq> set ?ws" "length ?ws = Suc (length us)" by auto
    then have u: "u \<noteq> []" "u \<in> L" "set us \<subseteq> L" using ws(3) by auto
    have "concat us \<in> repeats 0 (dec mx) L"
      unfolding repeats_def using ws(2) l u(3) \<open>length ?ws = Suc (length us)\<close>
      by (auto split: option.splits intro!: exI [of _ us])
    moreover have "w = u @ concat us" using c ws(1) Cons by simp
    ultimately show ?thesis using u by blast
  qed
next
  fix w assume "w \<in> {[]} \<union> {u @ v | u v. u \<in> L \<and> u \<noteq> [] \<and> v \<in> repeats 0 (dec mx) L}"
  then consider "w = []" | u us where "w = u @ concat us" "u \<in> L"
    "case dec mx of None \<Rightarrow> True | Some k \<Rightarrow> length us \<le> k" "set us \<subseteq> L"
    by (auto simp: repeats_def)
  then show "w \<in> repeats 0 mx L"
  proof cases
    case 1
    then show ?thesis
      unfolding repeats_def by (auto split: option.splits intro!: exI [of _ "[]"])
  next
    case 2
    then show ?thesis
      unfolding repeats_def using assms
      by (auto split: option.splits intro!: exI [of _ "u # us"])
  qed
qed

definition cont_rest :: "(mstate \<Rightarrow> mstate option) \<Rightarrow> bool" where
  "cont_rest c \<longleftrightarrow> (\<forall>y y'. rest y = rest y' \<longrightarrow> (c y = None \<longleftrightarrow> c y' = None))"

definition accepts :: "(mstate \<Rightarrow> mstate option) \<Rightarrow> jsstring \<Rightarrow> bool" where
  "accepts c v \<longleftrightarrow> (\<exists>y. rest y = v \<and> c y \<noteq> None)"

lemma accepts_iff: "cont_rest c \<Longrightarrow> accepts c (rest x) \<longleftrightarrow> c x \<noteq> None"
  unfolding cont_rest_def accepts_def by metis

lemma accepts_state: "(\<exists>y::mstate. rest y = v \<and> P v) \<longleftrightarrow> P v"
  by (auto intro: exI [of _ "\<lparr>endIndex = 0, rest = v, captures = []\<rparr>"])

definition splits_into :: "jsstring \<Rightarrow> jsstring set \<Rightarrow> (mstate \<Rightarrow> mstate option) \<Rightarrow> bool" where
  "splits_into s L c \<longleftrightarrow> (\<exists>u v. s = u @ v \<and> u \<in> L \<and> accepts c v)"

lemma accepts_splits:
  assumes "\<And>y. (c' y \<noteq> None) = splits_into (rest y) L c"
  shows "accepts c' v = splits_into v L c"
proof -
  have "(\<exists>y::mstate. rest y = v \<and> splits_into (rest y) L c) = splits_into v L c"
    by (auto intro: exI [of _ "\<lparr>endIndex = 0, rest = v, captures = []\<rparr>"])
  then show ?thesis unfolding accepts_def assms .
qed

lemma cont_rest_splits:
  assumes "\<And>y. (c' y \<noteq> None) = splits_into (rest y) L c"
  shows "cont_rest c'"
  unfolding cont_rest_def using assms by (metis)

lemma splits_into_Seq:
  assumes "\<And>y. (c' y \<noteq> None) = splits_into (rest y) Lb c"
  shows "splits_into s {u @ v | u v. u \<in> La \<and> v \<in> Lb} c = splits_into s La c'"
proof -
  have "splits_into s La c' \<longleftrightarrow> (\<exists>u v. s = u @ v \<and> u \<in> La \<and> splits_into v Lb c)"
    unfolding splits_into_def [of s La c'] accepts_splits [of c' Lb c, OF assms] ..
  also have "\<dots> \<longleftrightarrow> splits_into s {u @ v | u v. u \<in> La \<and> v \<in> Lb} c"
    unfolding splits_into_def
    by (auto; metis append.assoc)
  finally show ?thesis ..
qed

lemma splits_into_Empty: "cont_rest c \<Longrightarrow> splits_into (rest x) {[]} c = (c x \<noteq> None)"
  by (simp add: splits_into_def accepts_iff)

lemma splits_into_Un: "splits_into s (A \<union> B) c \<longleftrightarrow> splits_into s A c \<or> splits_into s B c"
  unfolding splits_into_def by blast

lemma splits_into_empty [simp]: "\<not> splits_into s {} c"
  by (simp add: splits_into_def)

lemma matcher_lang:
  "wf_node r \<Longrightarrow> cont_rest c \<Longrightarrow> (matcher ic r x c \<noteq> None) = splits_into (rest x) (lang ic r) c"
proof (induction ic r x c rule: matcher.induct)
  case (1 ic x c)
  then show ?case by (simp add: matcher.simps splits_into_Empty)
next
  case (2 ic invert A x c)
  show ?case
  proof (cases "rest x")
    case Nil
    then show ?thesis by (simp add: matcher.simps splits_into_def)
  next
    case (Cons ch r)
    let ?y = "x\<lparr>endIndex := endIndex x + 1, rest := r\<rparr>"
    have "accepts c r = (c ?y \<noteq> None)"
      using accepts_iff [OF "2.prems"(2), of ?y] by simp
    moreover have "splits_into (ch # r) (lang ic (CharSet invert A)) c \<longleftrightarrow>
        found ic A ch \<noteq> invert \<and> accepts c r"
    proof
      assume "splits_into (ch # r) (lang ic (CharSet invert A)) c"
      then obtain u v ch' where "ch # r = u @ v" "u = [ch']" "found ic A ch' \<noteq> invert" "accepts c v"
        by (auto simp: splits_into_def)
      then show "found ic A ch \<noteq> invert \<and> accepts c r" by simp
    next
      assume "found ic A ch \<noteq> invert \<and> accepts c r"
      then show "splits_into (ch # r) (lang ic (CharSet invert A)) c"
        unfolding splits_into_def by (intro exI [of _ "[ch]"] exI [of _ r]) simp
    qed
    ultimately show ?thesis using Cons by (simp add: matcher.simps)
  qed
next
  case (3 ic a b x c)
  from "3.prems" have wf: "wf_node a" "wf_node b" by simp_all
  have b: "(matcher ic b y c \<noteq> None) = splits_into (rest y) (lang ic b) c" for y
    by (rule "3.IH"(1) [OF wf(2) "3.prems"(2)])
  have "(matcher ic a x (\<lambda>y. matcher ic b y c) \<noteq> None) =
      splits_into (rest x) (lang ic a) (\<lambda>y. matcher ic b y c)"
    by (rule "3.IH"(2) [OF wf(1) cont_rest_splits [of _ "lang ic b" c, OF b]])
  also have "\<dots> = splits_into (rest x) (lang ic (Seq a b)) c"
    using splits_into_Seq [of "\<lambda>y. matcher ic b y c" "lang ic b" c "rest x" "lang ic a", OF b]
    by simp
  finally show ?case by (simp add: matcher.simps)
next
  case (4 ic a b x c)
  from "4.prems" have wf: "wf_node a" "wf_node b" by simp_all
  note a = "4.IH"(1) [OF wf(1) "4.prems"(2)]
  show ?case
  proof (cases "matcher ic a x c")
    case None
    from "4.IH"(2) [OF None wf(2) "4.prems"(2)] a None show ?thesis
      by (simp add: matcher.simps splits_into_Un)
  next
    case (Some z)
    with a show ?thesis by (simp add: matcher.simps splits_into_Un)
  qed
next
  case (5 ic k r x c)
  let ?c = "\<lambda>y. c (y\<lparr>captures := (captures y)[k := Some (endIndex x, endIndex y)]\<rparr>)"
  from "5.prems" have wf: "wf_node r" by simp
  have upd: "rest (y\<lparr>captures := (captures y)[k := Some (endIndex x, endIndex y)]\<rparr>) = rest y"
    for y :: mstate by simp
  note cR = "5.prems"(2) [unfolded cont_rest_def, rule_format]
  have cr: "cont_rest ?c"
    unfolding cont_rest_def
  proof (intro allI impI)
    fix y y' :: mstate
    assume "rest y = rest y'"
    then have "rest (y\<lparr>captures := (captures y)[k := Some (endIndex x, endIndex y)]\<rparr>) =
               rest (y'\<lparr>captures := (captures y')[k := Some (endIndex x, endIndex y')]\<rparr>)"
      by simp
    then show "(?c y = None) = (?c y' = None)" by (rule cR)
  qed
  have acc: "accepts ?c v = accepts c v" for v
  proof
    assume "accepts ?c v"
    then obtain y where y: "rest y = v" "?c y \<noteq> None" unfolding accepts_def by blast
    show "accepts c v"
      unfolding accepts_def
      by (rule exI [of _ "y\<lparr>captures := (captures y)[k := Some (endIndex x, endIndex y)]\<rparr>"])
         (use y in simp)
  next
    assume "accepts c v"
    then obtain y where y: "rest y = v" "c y \<noteq> None" unfolding accepts_def by blast
    from cR [OF upd [of y]] y(2) have "?c y \<noteq> None" by simp
    with y(1) show "accepts ?c v" unfolding accepts_def by blast
  qed
  from "5.IH" [OF wf cr] show ?case
    by (simp add: matcher.simps splits_into_def acc)
next
  case (6 ic r mn mx greedy x c)
  from "6.prems" have wf: "wf_node r" and le: "case mx of None \<Rightarrow> True | Some k \<Rightarrow> mn \<le> k"
    by simp_all
  define d where "d = (\<lambda>y. if mn = 0 \<and> length (rest x) \<le> length (rest y) then None
                      else matcher ic (Quant r (mn - 1) (dec mx) greedy) y c)"
  define xr where "xr = x\<lparr>captures := clear_captures (groups r) (captures x)\<rparr>"
  have rest_xr: "rest xr = rest x" by (simp add: xr_def)
  show ?case
  proof (cases "mx = Some 0")
    case True
    with le have "mn = 0" by simp
    with True "6.prems"(2) show ?thesis
      by (simp add: matcher.simps repeats_zero splits_into_Empty)
  next
    case False
    have wf': "wf_node (Quant r (mn - 1) (dec mx) greedy)"
      using wf le by (auto split: option.splits)
    have rec: "(matcher ic (Quant r (mn - 1) (dec mx) greedy) y c \<noteq> None) =
        splits_into (rest y) (repeats (mn - 1) (dec mx) (lang ic r)) c"
      if "\<not> (mn = 0 \<and> length (rest x) \<le> length (rest y))" for y
      using "6.IH"(1) [OF False that wf' "6.prems"(2)] by simp
    have unfold: "matcher ic (Quant r mn mx greedy) x c =
        (if mn \<noteq> 0 then matcher ic r xr d
         else if \<not> greedy then (case c x of Some z \<Rightarrow> Some z | None \<Rightarrow> matcher ic r xr d)
         else (case matcher ic r xr d of Some z \<Rightarrow> Some z | None \<Rightarrow> c x))"
      using False unfolding d_def xr_def by (subst matcher.simps) (simp add: Let_def)
    show ?thesis
    proof (cases "mn = 0")
      case pos: False
      have d: "(d y \<noteq> None) = splits_into (rest y) (repeats (mn - 1) (dec mx) (lang ic r)) c" for y
        using rec [of y] pos by (simp add: d_def)
      have "(matcher ic r xr d \<noteq> None) = splits_into (rest xr) (lang ic r) d"
        using pos by (intro "6.IH"(2) [OF False d_def xr_def _ wf cont_rest_splits [OF d]]) simp
      also have "\<dots> = splits_into (rest x) (lang ic (Quant r mn mx greedy)) c"
        using splits_into_Seq [of d _ c "rest x" "lang ic r", OF d] pos False
        by (simp add: repeats_pos rest_xr)
      finally show ?thesis using pos by (simp add: unfold)
    next
      case zero: True
      let ?Q = "repeats 0 (dec mx) (lang ic r)"
      have d: "(d y \<noteq> None) = (length (rest y) < length (rest x) \<and> splits_into (rest y) ?Q c)" for y
        using rec [of y] zero by (auto simp: d_def)
      have crd: "cont_rest d"
        unfolding cont_rest_def using d by metis
      have accd: "accepts d v = (length v < length (rest x) \<and> splits_into v ?Q c)" for v
      proof -
        have "(\<exists>y::mstate. rest y = v \<and> length (rest y) < length (rest x) \<and> splits_into (rest y) ?Q c) =
            (length v < length (rest x) \<and> splits_into v ?Q c)"
          by (auto intro: exI [of _ "\<lparr>endIndex = 0, rest = v, captures = []\<rparr>"])
        then show ?thesis unfolding accepts_def d .
      qed
      have iter: "splits_into (rest x) (lang ic r) d \<longleftrightarrow>
          splits_into (rest x) {u @ v | u v. u \<in> lang ic r \<and> u \<noteq> [] \<and> v \<in> ?Q} c"
      proof
        assume "splits_into (rest x) (lang ic r) d"
        then obtain u v where uv0: "rest x = u @ v" "u \<in> lang ic r" "accepts d v"
          unfolding splits_into_def by blast
        then have uv: "rest x = u @ v" "u \<in> lang ic r" "length v < length (rest x)"
          "splits_into v ?Q c" by (simp_all add: accd)
        from uv(4) obtain u' v' where u': "v = u' @ v'" "u' \<in> ?Q" "accepts c v'"
          unfolding splits_into_def by blast
        from uv(1,3) have "u \<noteq> []" by auto
        with uv(1,2) u' show "splits_into (rest x) {u @ v | u v. u \<in> lang ic r \<and> u \<noteq> [] \<and> v \<in> ?Q} c"
          unfolding splits_into_def by (intro exI [of _ "u @ u'"] exI [of _ v']) auto
      next
        assume "splits_into (rest x) {u @ v | u v. u \<in> lang ic r \<and> u \<noteq> [] \<and> v \<in> ?Q} c"
        then obtain w v' where w: "rest x = w @ v'"
          "w \<in> {u @ v | u v. u \<in> lang ic r \<and> u \<noteq> [] \<and> v \<in> ?Q}" "accepts c v'"
          unfolding splits_into_def by blast
        from w(2) obtain u u' where "w = u @ u'" "u \<in> lang ic r" "u \<noteq> []" "u' \<in> ?Q" by blast
        with w(1,3) have u: "rest x = (u @ u') @ v'" "u \<in> lang ic r" "u \<noteq> []" "u' \<in> ?Q"
          "accepts c v'" by simp_all
        then have "splits_into (u' @ v') ?Q c" unfolding splits_into_def by blast
        moreover from u(1,3) have "length (u' @ v') < length (rest x)" by simp
        ultimately have "accepts d (u' @ v')" by (simp add: accd)
        with u(1,2) show "splits_into (rest x) (lang ic r) d"
          unfolding splits_into_def by (intro exI [of _ u] exI [of _ "u' @ v'"]) simp
      qed
      have body: "(matcher ic r xr d \<noteq> None) = splits_into (rest x) (lang ic r) d"
        if "greedy \<or> c x = None"
      proof (cases greedy)
        case True
        from "6.IH"(4) [OF False d_def xr_def _ _ wf crd] zero True show ?thesis
          by (simp add: rest_xr)
      next
        case ng: False
        with that have "c x = None" by simp
        from "6.IH"(3) [OF False d_def xr_def _ ng this wf crd] zero show ?thesis
          by (simp add: rest_xr)
      qed
      have "(matcher ic (Quant r mn mx greedy) x c \<noteq> None) \<longleftrightarrow>
          c x \<noteq> None \<or> splits_into (rest x) (lang ic r) d"
        unfolding unfold using body zero
        by (cases greedy; cases "c x"; cases "matcher ic r xr d") auto
      also have "\<dots> \<longleftrightarrow> splits_into (rest x) {[]} c \<or>
          splits_into (rest x) {u @ v | u v. u \<in> lang ic r \<and> u \<noteq> [] \<and> v \<in> ?Q} c"
        using "6.prems"(2) by (simp only: splits_into_Empty iter)
      also have "\<dots> \<longleftrightarrow> splits_into (rest x) (repeats 0 mx (lang ic r)) c"
        by (simp only: repeats_none [OF False] splits_into_Un)
      finally show ?thesis using zero by simp
    qed
  qed
qed

lemma cont_rest_Some: "cont_rest Some"
  by (simp add: cont_rest_def)

lemma splits_into_Some: "splits_into s L Some \<longleftrightarrow> (\<exists>u v. s = u @ v \<and> u \<in> L)"
proof -
  have "\<exists>y::mstate. rest y = v" for v
    by (rule exI [of _ "\<lparr>endIndex = 0, rest = v, captures = []\<rparr>"]) simp
  then show ?thesis
    unfolding splits_into_def accepts_def by simp
qed

lemma search_lang:
  "wf_node r \<Longrightarrow> (search ic r i s \<noteq> None) \<longleftrightarrow> (\<exists>before u after. s = before @ u @ after \<and> u \<in> lang ic r)"
proof (induction s arbitrary: i)
  case Nil
  let ?x = "\<lparr>endIndex = i, rest = [], captures = replicate (Suc (length (groups r))) None\<rparr>"
  have "(matcher ic r ?x Some \<noteq> None) \<longleftrightarrow> [] \<in> lang ic r"
    using matcher_lang [OF Nil cont_rest_Some, of ic ?x] by (simp add: splits_into_Some)
  then show ?case
    by (subst search.simps) (auto split: option.splits)
next
  case (Cons ch s)
  let ?x = "\<lparr>endIndex = i, rest = ch # s, captures = replicate (Suc (length (groups r))) None\<rparr>"
  have here: "(matcher ic r ?x Some \<noteq> None) \<longleftrightarrow> (\<exists>u v. ch # s = u @ v \<and> u \<in> lang ic r)"
    using matcher_lang [OF Cons.prems cont_rest_Some, of ic ?x] by (simp add: splits_into_Some)
  have later: "(search ic r (Suc i) s \<noteq> None) \<longleftrightarrow>
      (\<exists>before u after. s = before @ u @ after \<and> u \<in> lang ic r)"
    by (rule Cons.IH [OF Cons.prems])
  have "(search ic r i (ch # s) \<noteq> None) \<longleftrightarrow>
      matcher ic r ?x Some \<noteq> None \<or> search ic r (Suc i) s \<noteq> None"
    by (subst search.simps) (auto split: option.splits)
  also have "\<dots> \<longleftrightarrow> (\<exists>before u after. ch # s = before @ u @ after \<and> u \<in> lang ic r)"
  proof
    assume "matcher ic r ?x Some \<noteq> None \<or> search ic r (Suc i) s \<noteq> None"
    then show "\<exists>before u after. ch # s = before @ u @ after \<and> u \<in> lang ic r"
    proof
      assume "matcher ic r ?x Some \<noteq> None"
      with here obtain u v where "ch # s = u @ v" "u \<in> lang ic r" by blast
      then show ?thesis by (intro exI [of _ "[]"] exI [of _ u] exI [of _ v]) simp
    next
      assume "search ic r (Suc i) s \<noteq> None"
      with later obtain before u after where "s = before @ u @ after" "u \<in> lang ic r" by blast
      then show ?thesis by (intro exI [of _ "ch # before"] exI [of _ u] exI [of _ after]) simp
    qed
  next
    assume "\<exists>before u after. ch # s = before @ u @ after \<and> u \<in> lang ic r"
    then obtain before u after where b: "ch # s = before @ u @ after" "u \<in> lang ic r" by blast
    show "matcher ic r ?x Some \<noteq> None \<or> search ic r (Suc i) s \<noteq> None"
    proof (cases before)
      case Nil
      with b here show ?thesis by auto
    next
      case (Cons a before')
      with b have "s = before' @ u @ after" by simp
      with b(2) later show ?thesis by blast
    qed
  qed
  finally show ?case .
qed

lemma fires_lang:
  assumes "\<not> global R" "wf_node (pattern R)"
  shows "fires R text \<longleftrightarrow>
    (\<exists>before u after. text = before @ u @ after \<and> u \<in> lang (ignoreCase R) (pattern R))"
  using search_lang [OF assms(2)] by (simp add: fires_search [OF assms(1)])

definition in_ranges :: "(codeunit \<times> codeunit) list \<Rightarrow> codeunit \<Rightarrow> bool" where
  "in_ranges A ch \<longleftrightarrow> (\<exists>(lo, hi) \<in> set A. lo \<le> ch \<and> ch \<le> hi)"

definition same_ignoring_case :: "jsstring \<Rightarrow> jsstring \<Rightarrow> bool" where
  "same_ignoring_case u v \<longleftrightarrow> map (canonicalize True) u = map (canonicalize True) v"

lemma found_no_letters:
  assumes "\<And>lo hi. (lo, hi) \<in> set A \<Longrightarrow> hi < 65 \<or> (90 < lo \<and> hi < 97) \<or> 122 < lo"
  shows "found ic A ch = in_ranges A ch"
proof
  assume "found ic A ch"
  then obtain lo hi a where a: "(lo, hi) \<in> set A" "lo \<le> a" "a \<le> hi"
    "canonicalize ic a = canonicalize ic ch"
    by (auto simp: found_def list_ex_iff)
  from assms [OF a(1)] a(2,3) have na: "a < 65 \<or> (90 < a \<and> a < 97) \<or> 122 < a" by auto
  then have "canonicalize ic a = a" by (auto simp: canonicalize_def)
  with a(4) na have "ch = a" by (auto simp: canonicalize_def split: if_splits)
  with a show "in_ranges A ch" by (auto simp: in_ranges_def)
next
  assume "in_ranges A ch"
  then obtain lo hi where "(lo, hi) \<in> set A" "lo \<le> ch" "ch \<le> hi"
    by (auto simp: in_ranges_def)
  then show "found ic A ch"
    unfolding found_def list_ex_iff by (intro bexI [of _ "(lo, hi)"]) auto
qed

lemma found_white_space: "found ic white_space ch = in_ranges white_space ch"
  by (rule found_no_letters) (auto simp: white_space_def)

lemma found_line_terminator: "found ic line_terminator ch = in_ranges line_terminator ch"
  by (rule found_no_letters) (auto simp: line_terminator_def)

lemma found_source_separators: "found ic source_separators ch = in_ranges source_separators ch"
  by (rule found_no_letters) (auto simp: source_separators_def)

lemma found_single: "found ic [(p, p)] ch \<longleftrightarrow> canonicalize ic p = canonicalize ic ch"
  by (simp add: found_def)

lemma lang_SeqI: "u \<in> lang ic a \<Longrightarrow> v \<in> lang ic b \<Longrightarrow> u @ v \<in> lang ic (Seq a b)"
  by auto

lemma lang_lit: "lang ic (lit s) = {w. map (canonicalize ic) w = map (canonicalize ic) (js s)}"
proof (induction s)
  case Nil
  then show ?case by (simp add: js_def)
next
  case (Cons p s)
  show ?case
  proof (intro set_eqI iffI)
    fix w assume "w \<in> lang ic (lit (p # s))"
    then obtain ch v where "w = ch # v" "canonicalize ic (of_char p) = canonicalize ic ch"
      "v \<in> lang ic (lit s)" by (auto simp: found_single)
    with Cons.IH show "w \<in> {w. map (canonicalize ic) w = map (canonicalize ic) (js (p # s))}"
      by (simp add: js_def)
  next
    fix w assume "w \<in> {w. map (canonicalize ic) w = map (canonicalize ic) (js (p # s))}"
    then obtain ch v where w: "w = ch # v" "canonicalize ic ch = canonicalize ic (of_char p)"
      "map (canonicalize ic) v = map (canonicalize ic) (js s)"
      by (cases w) (auto simp: js_def)
    with Cons.IH have "v \<in> lang ic (lit s)" by simp
    moreover have "[ch] \<in> lang ic (CharSet False [(of_char p, of_char p)])"
      using w(2) by (simp add: found_single)
    ultimately have "[ch] @ v \<in> lang ic (Seq (CharSet False [(of_char p, of_char p)]) (lit s))"
      by (intro lang_SeqI)
    with w(1) show "w \<in> lang ic (lit (p # s))" by simp
  qed
qed

lemma alternatives_simps:
  "alternatives [l] = lit l"
  "alternatives (l # l' # ls) = Alt (lit l) (alternatives (l' # ls))"
  by (simp_all add: alternatives_def)

lemma lang_alternatives:
  "ls \<noteq> [] \<Longrightarrow> lang ic (alternatives ls) = (\<Union>l \<in> set ls. lang ic (lit l))"
proof (induction ls)
  case Nil
  then show ?case by simp
next
  case (Cons l ls)
  then show ?case
    by (cases ls) (simp_all add: alternatives_simps del: lit.simps)
qed

lemma repeats_chars:
  "repeats 0 None {[ch] | ch. P ch} = {w. \<forall>ch \<in> set w. P ch}"
proof (intro set_eqI iffI)
  fix w assume "w \<in> repeats 0 None {[ch] | ch. P ch}"
  then obtain ws where "w = concat ws" "set ws \<subseteq> {[ch] | ch. P ch}" by (auto simp: repeats_def)
  then show "w \<in> {w. \<forall>ch \<in> set w. P ch}" by auto
next
  fix w assume "w \<in> {w. \<forall>ch \<in> set w. P ch}"
  then have "set (map (\<lambda>ch. [ch]) w) \<subseteq> {[ch] | ch. P ch}" by auto
  moreover have "concat (map (\<lambda>ch. [ch]) w) = w" by (induction w) auto
  ultimately have "\<exists>ws. w = concat ws \<and> set ws \<subseteq> {[ch] | ch. P ch}"
    by (intro exI [of _ "map (\<lambda>ch. [ch]) w"]) simp
  then show "w \<in> repeats 0 None {[ch] | ch. P ch}"
    by (simp add: repeats_def)
qed

lemma repeats_chars1:
  "repeats 1 None {[ch] | ch. P ch} = {w. w \<noteq> [] \<and> (\<forall>ch \<in> set w. P ch)}"
proof -
  have "repeats 1 None {[ch] | ch. P ch} =
      {u @ v | u v. u \<in> {[ch] | ch. P ch} \<and> v \<in> repeats 0 None {[ch] | ch. P ch}}"
    using repeats_pos [of 1 None "{[ch] | ch. P ch}"] by simp
  also have "\<dots> = {w. w \<noteq> [] \<and> (\<forall>ch \<in> set w. P ch)}"
    unfolding repeats_chars
  proof (intro set_eqI iffI)
    fix w assume "w \<in> {u @ v | u v. u \<in> {[ch] | ch. P ch} \<and> v \<in> {w. \<forall>ch \<in> set w. P ch}}"
    then show "w \<in> {w. w \<noteq> [] \<and> (\<forall>ch \<in> set w. P ch)}" by auto
  next
    fix w assume "w \<in> {w. w \<noteq> [] \<and> (\<forall>ch \<in> set w. P ch)}"
    then obtain ch v where "w = [ch] @ v" "P ch" "\<forall>ch \<in> set v. P ch" by (cases w) auto
    then have "\<exists>u v. w = u @ v \<and> u \<in> {[ch] | ch. P ch} \<and> v \<in> {w. \<forall>ch \<in> set w. P ch}"
      by (intro exI [of _ "[ch]"] exI [of _ v]) blast
    then show "w \<in> {u @ v | u v. u \<in> {[ch] | ch. P ch} \<and> v \<in> {w. \<forall>ch \<in> set w. P ch}}"
      by blast
  qed
  finally show ?thesis .
qed

lemma lang_spaces: "lang ic (star ws) = {w. \<forall>ch \<in> set w. in_ranges white_space ch}"
  using repeats_chars [of "\<lambda>ch. in_ranges white_space ch"]
  by (simp add: star_def ws_def found_white_space)

lemma lang_value: "lang ic (plus dot) = {w. w \<noteq> [] \<and> (\<forall>ch \<in> set w. \<not> in_ranges line_terminator ch)}"
  using repeats_chars1 [of "\<lambda>ch. \<not> in_ranges line_terminator ch"]
  by (simp add: plus_def dot_def found_line_terminator)

lemma lang_separator:
  "lang ic (CharSet False source_separators) = {[ch] | ch. in_ranges source_separators ch}"
  by (simp add: found_source_separators)

definition label_value_shape :: "string list \<Rightarrow> (codeunit \<times> codeunit) list \<Rightarrow> jsstring \<Rightarrow> bool" where
  "label_value_shape labels separators text \<longleftrightarrow>
     (\<exists>before label space1 sep space2 val after.
        text = before @ label @ space1 @ [sep] @ space2 @ val @ after \<and>
        (\<exists>l \<in> set labels. same_ignoring_case label (js l)) \<and>
        (\<forall>ch \<in> set space1. in_ranges white_space ch) \<and>
        in_ranges separators sep \<and>
        (\<forall>ch \<in> set space2. in_ranges white_space ch) \<and>
        val \<noteq> [] \<and> (\<forall>ch \<in> set val. \<not> in_ranges line_terminator ch))"

lemma wf_node_lit [simp]: "wf_node (lit s)"
  by (induction s) auto

lemma wf_node_foldr_Alt: "wf_node b \<Longrightarrow> wf_node (foldr (\<lambda>l r. Alt (lit l) r) ls b)"
  by (induction ls) auto

lemma wf_node_alternatives [simp]: "wf_node (alternatives ls)"
  by (simp add: alternatives_def wf_node_foldr_Alt)

lemma wf_node_SOURCE: "wf_node (pattern SOURCE)"
  by (simp add: SOURCE_def star_def plus_def ws_def dot_def)

lemma lang_labels:
  "lang True (alternatives source_labels) = {w. \<exists>l \<in> set source_labels. same_ignoring_case w (js l)}"
proof -
  have "source_labels \<noteq> []" by (simp add: source_labels_def)
  from lang_alternatives [OF this] show ?thesis
    by (auto simp: lang_lit same_ignoring_case_def)
qed

lemma lang_SeqE:
  assumes "w \<in> lang ic (Seq a b)"
  obtains u v where "w = u @ v" "u \<in> lang ic a" "v \<in> lang ic b"
  using assms by auto

definition value_shape :: "(codeunit \<times> codeunit) list \<Rightarrow> jsstring \<Rightarrow> jsstring \<Rightarrow> jsstring \<Rightarrow> jsstring \<Rightarrow> bool" where
  "value_shape separators space1 c space2 val \<longleftrightarrow>
     (\<forall>ch \<in> set space1. in_ranges white_space ch) \<and>
     (\<exists>sep. c = [sep] \<and> in_ranges separators sep) \<and>
     (\<forall>ch \<in> set space2. in_ranges white_space ch) \<and>
     val \<noteq> [] \<and> (\<forall>ch \<in> set val. \<not> in_ranges line_terminator ch)"

lemma lang_SOURCE:
  "u \<in> lang True (pattern SOURCE) \<longleftrightarrow>
     (\<exists>label space1 c space2 val.
        u = label @ space1 @ c @ space2 @ val \<and>
        (\<exists>l \<in> set source_labels. same_ignoring_case label (js l)) \<and>
        value_shape source_separators space1 c space2 val)"
proof
  assume "u \<in> lang True (pattern SOURCE)"
  then have "u \<in> lang True (Seq (alternatives source_labels) (Seq (star ws)
      (Seq (CharSet False source_separators) (Seq (star ws) (plus dot)))))"
    by (simp add: SOURCE_def)
  then obtain label r1 where 1: "u = label @ r1" "label \<in> lang True (alternatives source_labels)"
    "r1 \<in> lang True (Seq (star ws) (Seq (CharSet False source_separators) (Seq (star ws) (plus dot))))"
    by (rule lang_SeqE)
  from 1(3) obtain space1 r2 where 2: "r1 = space1 @ r2" "space1 \<in> lang True (star ws)"
    "r2 \<in> lang True (Seq (CharSet False source_separators) (Seq (star ws) (plus dot)))"
    by (rule lang_SeqE)
  from 2(3) obtain c r3 where 3: "r2 = c @ r3" "c \<in> lang True (CharSet False source_separators)"
    "r3 \<in> lang True (Seq (star ws) (plus dot))"
    by (rule lang_SeqE)
  from 3(3) obtain space2 val where 4: "r3 = space2 @ val" "space2 \<in> lang True (star ws)"
    "val \<in> lang True (plus dot)"
    by (rule lang_SeqE)
  have "u = label @ space1 @ c @ space2 @ val" using 1(1) 2(1) 3(1) 4(1) by simp
  moreover have "\<exists>l \<in> set source_labels. same_ignoring_case label (js l)"
    using 1(2) by (simp add: lang_labels)
  moreover have "value_shape source_separators space1 c space2 val"
    using 2(2) 3(2) 4(2,3) unfolding value_shape_def lang_spaces lang_value lang_separator
    by simp
  ultimately show "\<exists>label space1 c space2 val.
        u = label @ space1 @ c @ space2 @ val \<and>
        (\<exists>l \<in> set source_labels. same_ignoring_case label (js l)) \<and>
        value_shape source_separators space1 c space2 val"
    by (intro exI conjI)
next
  assume "\<exists>label space1 c space2 val.
        u = label @ space1 @ c @ space2 @ val \<and>
        (\<exists>l \<in> set source_labels. same_ignoring_case label (js l)) \<and>
        value_shape source_separators space1 c space2 val"
  then obtain label space1 c space2 val where
    u: "u = label @ space1 @ c @ space2 @ val" and
    l: "\<exists>l \<in> set source_labels. same_ignoring_case label (js l)" and
    v: "value_shape source_separators space1 c space2 val"
    by (elim exE conjE)
  from l have "label \<in> lang True (alternatives source_labels)" by (simp add: lang_labels)
  moreover from v have "space1 \<in> lang True (star ws)" "space2 \<in> lang True (star ws)"
    "c \<in> lang True (CharSet False source_separators)" "val \<in> lang True (plus dot)"
    unfolding value_shape_def lang_spaces lang_value lang_separator by simp_all
  ultimately have "label @ space1 @ c @ space2 @ val \<in>
      lang True (Seq (alternatives source_labels) (Seq (star ws)
        (Seq (CharSet False source_separators) (Seq (star ws) (plus dot)))))"
    by (intro lang_SeqI)
  with u show "u \<in> lang True (pattern SOURCE)" by (simp add: SOURCE_def)
qed

lemma label_value_shape_alt:
  "label_value_shape labels separators text \<longleftrightarrow>
     (\<exists>before label space1 c space2 val after.
        text = before @ (label @ space1 @ c @ space2 @ val) @ after \<and>
        (\<exists>l \<in> set labels. same_ignoring_case label (js l)) \<and>
        value_shape separators space1 c space2 val)"
proof
  assume "label_value_shape labels separators text"
  then obtain before label space1 sep space2 val after where
    "text = before @ label @ space1 @ [sep] @ space2 @ val @ after"
    "\<exists>l \<in> set labels. same_ignoring_case label (js l)"
    "\<forall>ch \<in> set space1. in_ranges white_space ch"
    "in_ranges separators sep"
    "\<forall>ch \<in> set space2. in_ranges white_space ch"
    "val \<noteq> []" "\<forall>ch \<in> set val. \<not> in_ranges line_terminator ch"
    unfolding label_value_shape_def by (elim exE conjE)
  then have "text = before @ (label @ space1 @ [sep] @ space2 @ val) @ after \<and>
        (\<exists>l \<in> set labels. same_ignoring_case label (js l)) \<and>
        value_shape separators space1 [sep] space2 val"
    by (simp add: value_shape_def)
  then show "\<exists>before label space1 c space2 val after.
        text = before @ (label @ space1 @ c @ space2 @ val) @ after \<and>
        (\<exists>l \<in> set labels. same_ignoring_case label (js l)) \<and>
        value_shape separators space1 c space2 val"
    by (intro exI)
next
  assume "\<exists>before label space1 c space2 val after.
        text = before @ (label @ space1 @ c @ space2 @ val) @ after \<and>
        (\<exists>l \<in> set labels. same_ignoring_case label (js l)) \<and>
        value_shape separators space1 c space2 val"
  then obtain before label space1 c space2 val after where
    t: "text = before @ (label @ space1 @ c @ space2 @ val) @ after" and
    l: "\<exists>l \<in> set labels. same_ignoring_case label (js l)" and
    v: "value_shape separators space1 c space2 val"
    by (elim exE conjE)
  from v obtain sep where "c = [sep]" "in_ranges separators sep"
    unfolding value_shape_def by (elim exE conjE)
  with t l v have "text = before @ label @ space1 @ [sep] @ space2 @ val @ after \<and>
        (\<exists>l \<in> set labels. same_ignoring_case label (js l)) \<and>
        (\<forall>ch \<in> set space1. in_ranges white_space ch) \<and>
        in_ranges separators sep \<and>
        (\<forall>ch \<in> set space2. in_ranges white_space ch) \<and>
        val \<noteq> [] \<and> (\<forall>ch \<in> set val. \<not> in_ranges line_terminator ch)"
    by (simp add: value_shape_def)
  then show "label_value_shape labels separators text"
    unfolding label_value_shape_def by (intro exI)
qed

lemma fires_SOURCE: "fires SOURCE text \<longleftrightarrow> label_value_shape source_labels source_separators text"
proof -
  have "fires SOURCE text \<longleftrightarrow>
      (\<exists>before u after. text = before @ u @ after \<and> u \<in> lang True (pattern SOURCE))"
    using fires_lang [of SOURCE "text"] wf_node_SOURCE by simp
  also have "\<dots> \<longleftrightarrow> label_value_shape source_labels source_separators text"
    unfolding lang_SOURCE label_value_shape_alt
  proof
    assume "\<exists>before u after. text = before @ u @ after \<and>
      (\<exists>label space1 c space2 val.
        u = label @ space1 @ c @ space2 @ val \<and>
        (\<exists>l \<in> set source_labels. same_ignoring_case label (js l)) \<and>
        value_shape source_separators space1 c space2 val)"
    then obtain before u after label space1 c space2 val where
      "text = before @ u @ after" "u = label @ space1 @ c @ space2 @ val"
      "\<exists>l \<in> set source_labels. same_ignoring_case label (js l)"
      "value_shape source_separators space1 c space2 val"
      by (elim exE conjE)
    then have "text = before @ (label @ space1 @ c @ space2 @ val) @ after \<and>
        (\<exists>l \<in> set source_labels. same_ignoring_case label (js l)) \<and>
        value_shape source_separators space1 c space2 val"
      by simp
    then show "\<exists>before label space1 c space2 val after.
        text = before @ (label @ space1 @ c @ space2 @ val) @ after \<and>
        (\<exists>l \<in> set source_labels. same_ignoring_case label (js l)) \<and>
        value_shape source_separators space1 c space2 val"
      by (intro exI)
  next
    assume "\<exists>before label space1 c space2 val after.
        text = before @ (label @ space1 @ c @ space2 @ val) @ after \<and>
        (\<exists>l \<in> set source_labels. same_ignoring_case label (js l)) \<and>
        value_shape source_separators space1 c space2 val"
    then obtain before label space1 c space2 val after where
      "text = before @ (label @ space1 @ c @ space2 @ val) @ after"
      "\<exists>l \<in> set source_labels. same_ignoring_case label (js l)"
      "value_shape source_separators space1 c space2 val"
      by (elim exE conjE)
    then have "text = before @ (label @ space1 @ c @ space2 @ val) @ after \<and>
      (\<exists>label' space1' c' space2' val'.
        label @ space1 @ c @ space2 @ val = label' @ space1' @ c' @ space2' @ val' \<and>
        (\<exists>l \<in> set source_labels. same_ignoring_case label' (js l)) \<and>
        value_shape source_separators space1' c' space2' val')"
      by (intro conjI exI [of _ label] exI [of _ space1] exI [of _ c] exI [of _ space2]
            exI [of _ val]) simp_all
    then show "\<exists>before u after. text = before @ u @ after \<and>
      (\<exists>label space1 c space2 val.
        u = label @ space1 @ c @ space2 @ val \<and>
        (\<exists>l \<in> set source_labels. same_ignoring_case label (js l)) \<and>
        value_shape source_separators space1 c space2 val)"
      by (intro exI)
  qed
  finally show ?thesis .
qed

lemma indexOf_from_found:
  "prefix t (drop j s) \<Longrightarrow> j \<le> length s \<Longrightarrow>
   \<exists>i \<le> j. indexOf_from k s t = int (k + i) \<and> prefix t (drop i s)"
proof (induction s arbitrary: k j)
  case Nil
  then show ?case by simp
next
  case (Cons ch s)
  show ?case
  proof (cases "prefix t (ch # s)")
    case True
    then show ?thesis by (intro exI [of _ 0]) simp
  next
    case False
    with Cons.prems obtain j' where j: "j = Suc j'" by (cases j) auto
    with Cons.prems have "prefix t (drop j' s)" "j' \<le> length s" by simp_all
    from Cons.IH [OF this, of "Suc k"] obtain i where
      "i \<le> j'" "indexOf_from (Suc k) s t = int (Suc k + i)" "prefix t (drop i s)" by blast
    with False j show ?thesis by (intro exI [of _ "Suc i"]) simp
  qed
qed

definition covers :: "jsstring \<Rightarrow> highlight \<Rightarrow> jsstring \<Rightarrow> bool" where
  "covers text h v \<longleftrightarrow>
     0 \<le> hl_start h \<and> hl_end h = hl_start h + int (length v) \<and> hl_end h \<le> int (length text) \<and>
     substring text (nat (hl_start h)) (nat (hl_end h)) = v"

lemma first_occurrence_covers:
  assumes "i \<le> s" "s \<le> e" "e \<le> length text"
  defines "v \<equiv> substring text s e"
  defines "start \<equiv> int i + indexOf (substring text i e) v"
  shows "covers text \<lparr>hl_start = start, hl_end = start + int (length v), hl_type = k\<rparr> v"
proof -
  let ?full = "substring text i e"
  have lv: "length v = e - s" using assms(2,3) by (simp add: v_def substring_def)
  have "drop (s - i) ?full = v"
    using assms(1) by (simp add: v_def substring_def drop_take)
  then have "prefix v (drop (s - i) ?full)" by simp
  moreover have "s - i \<le> length ?full" using assms(1-3) by (simp add: substring_def)
  ultimately obtain j where j: "j \<le> s - i" "indexOf ?full v = int j" "prefix v (drop j ?full)"
    unfolding indexOf_def using indexOf_from_found [of v "s - i" ?full 0] by auto
  have st: "start = int (i + j)" by (simp add: start_def j(2))
  from j(3) have "take (length v) (drop j ?full) = v"
    by (metis append_eq_conv_conj prefix_def)
  moreover have "drop j ?full = take (e - i - j) (drop (i + j) text)"
    by (simp add: substring_def drop_take add.commute)
  moreover from j(3) have "length v \<le> length (drop j ?full)" by (rule prefix_length_le)
  then have "length v \<le> e - i - j" by (simp add: substring_def)
  ultimately have "take (length v) (drop (i + j) text) = v"
    by (simp add: min_absorb1)
  moreover from \<open>length v \<le> e - i - j\<close> j(1) assms(1-3) lv
  have "i + j + length v \<le> length text" by linarith
  moreover have "nat start = i + j" unfolding st by (rule nat_int)
  moreover have "start + int (length v) = int (i + j + length v)" by (simp add: st)
  then have "nat (start + int (length v)) = i + j + length v" by (simp only: nat_int)
  ultimately show ?thesis
    using st by (simp add: covers_def substring_def)
qed

lemma source_highlights_covers:
  assumes "search True (pattern SOURCE) 0 text = Some mt"
  shows "\<exists>h v. source_highlights text = [h] \<and> hl_type h = source \<and>
               capture text mt 2 = Some v \<and> covers text h v"
proof -
  from search_last_group [OF assms, of 2] obtain s where
    s: "match_captures mt ! 2 = Some (s, end_index mt)" "2 < length (match_captures mt)"
       "index mt \<le> s" "s \<le> end_index mt" "end_index mt \<le> length text" by auto
  let ?v = "substring text s (end_index mt)"
  let ?start = "int (index mt) + indexOf (substring text (index mt) (end_index mt)) ?v"
  let ?h = "\<lparr>hl_start = ?start, hl_end = ?start + int (length ?v), hl_type = source\<rparr>"
  have "source_highlights text = [?h]"
    using assms s(1) by (simp add: source_highlights_def matched_def Let_def)
  moreover have "capture text mt 2 = Some ?v"
    using s(1,2) by (simp add: capture_def)
  moreover have "covers text ?h ?v"
    using first_occurrence_covers [OF s(3,4,5)] by simp
  ultimately show ?thesis by (intro exI [of _ ?h] exI [of _ ?v]) simp
qed

definition claimed_labels :: "string list" where
  "claimed_labels = [''name'', ''source'', ''title'', ''track'', ''song'', ''movie'', ''anime'']"

lemma label_value_shape_letters:
  assumes "label_value_shape labels separators text"
  shows "\<exists>l \<in> set labels. set (map (canonicalize True) (js l)) \<subseteq> set (map (canonicalize True) text)"
proof -
  from assms obtain before label r l where
    "text = before @ label @ r" "l \<in> set labels" "same_ignoring_case label (js l)"
    unfolding label_value_shape_def by blast
  then have "map (canonicalize True) text =
      map (canonicalize True) before @ map (canonicalize True) (js l) @ map (canonicalize True) r"
    by (simp add: same_ignoring_case_def)
  then have "set (map (canonicalize True) (js l)) \<subseteq> set (map (canonicalize True) text)"
    by (metis Un_upper1 Un_upper2 set_append subset_trans)
  with \<open>l \<in> set labels\<close> show ?thesis by blast
qed

section \<open>Example states\<close>

definition example_thread :: Comment where
  "example_thread =
     \<lparr>comment_id = js ''t1'', parentId = None, videoId = js ''v'', authorName = js ''a'',
      authorProfileImageUrl = [], textDisplay = js ''source: x'', textOriginal = js ''source: x'',
      likeCount = 0, replyCount = 3, publishedAt = [], isSuperThanks = False, isPinned = False,
      repliesFetched = False, comment_score = 80\<rparr>"

definition example_meta :: VideoMetadata where
  "example_meta = \<lparr>meta_videoId = js ''v'', title = js ''t'', thumbnailUrl = [],
                    totalComments = Finite 1, lastScanned = 0, scanStatus = VIdle\<rparr>"

definition example_world :: "event list \<Rightarrow> world" where
  "example_world es =
     \<lparr>comments = [example_thread], videos = [js ''v'' \<mapsto> example_meta], events = es, requests = [],
      stats = \<lparr>fetchedCount = 0, totalEstimated = 0, status = Idle, mode = None, error = None\<rparr>,
      status_log = [], cancelScanRef = False, Date_now = 0\<rparr>"

definition paused_world :: world where
  "paused_world =
     (example_world [])\<lparr>stats := \<lparr>fetchedCount = 5, totalEstimated = 0, status = Paused,
                                  mode = Some Smart, error = None\<rparr>\<rparr>"

definition ranked_world :: world where
  "ranked_world =
     (example_world [])\<lparr>comments :=
        [example_thread\<lparr>comment_id := js ''a'', comment_score := 40\<rparr>,
         example_thread\<lparr>comment_id := js ''b'', comment_score := 0\<rparr>,
         example_thread\<lparr>comment_id := js ''c'', comment_score := 90\<rparr>,
         example_thread\<lparr>comment_id := js ''d'', comment_score := 90, videoId := js ''w''\<rparr>]\<rparr>"

definition example_snippet :: "int option \<Rightarrow> api_snippet" where
  "example_snippet n =
     \<lparr>authorDisplayName = js ''a'', snippet_authorProfileImageUrl = [],
      snippet_textDisplay = js ''hi'', snippet_textOriginal = js ''hi'', snippet_likeCount = 0,
      totalReplyCount = n, snippet_publishedAt = []\<rparr>"

text \<open>
  A page of three threads as the API answers it: the total number of replies is in the
  snippet of the thread, and the comment resources have neither a \<open>replies\<close> member nor
  a reply count in their snippet. The first thread reports one reply and carries it
  inline, the second reports seven replies and carries one, the third reports two and
  carries none.
\<close>

definition example_page :: "api_thread list" where
  "example_page =
     [\<lparr>topLevelComment = ApiComment (js ''t1'') (example_snippet None) None,
       thread_totalReplyCount = Some 1,
       thread_replies = Some (ApiReplies (Some [ApiComment (js ''r1'') (example_snippet None) None]))\<rparr>,
      \<lparr>topLevelComment = ApiComment (js ''t2'') (example_snippet None) None,
       thread_totalReplyCount = Some 7,
       thread_replies = Some (ApiReplies (Some [ApiComment (js ''r2'') (example_snippet None) None]))\<rparr>,
      \<lparr>topLevelComment = ApiComment (js ''t3'') (example_snippet None) None,
       thread_totalReplyCount = Some 2,
       thread_replies = None\<rparr>]"

section \<open>Facts about the service and the dashboard\<close>

lemma key_range:
  "key_le (vid, lo) (v, s) \<and> key_le (v, s) (vid, hi) \<longleftrightarrow> v = vid \<and> lo \<le> s \<and> s \<le> hi"
  by (auto simp: key_le_def)

lemma set_candidates:
  "set (candidates vid w) =
     {c \<in> set (comments w). videoId c = vid \<and> 1 \<le> comment_score c \<and> comment_score c \<le> 100}"
  by (auto simp: candidates_def sortBy_score_reversed_def between_def key_range)

lemma sorted_candidates:
  "sorted_wrt (\<lambda>a b. comment_score b \<le> comment_score a) (candidates vid w)"
proof -
  have "sorted (map (\<lambda>c. - comment_score c) (candidates vid w))"
    by (simp add: candidates_def sortBy_score_reversed_def)
  then show ?thesis
    by (simp add: sorted_wrt_map)
qed

lemma mapApiCommentToLocal_fields:
  assumes "mapApiCommentToLocal item vid parent = Inr c"
  shows "comment_id c = item_id item" "parentId c = parent" "videoId c = vid" "\<not> repliesFetched c"
    "item_replies item = None \<Longrightarrow>
       replyCount c = (case totalReplyCount (item_snippet item) of None \<Rightarrow> 0 | Some n \<Rightarrow> n)"
  using assms
  by (auto simp: mapApiCommentToLocal_def Let_def split: sum.splits option.splits)

lemma map_items_all:
  "map_items f xs = Inr ys \<Longrightarrow> list_all2 (\<lambda>x y. f x = Inr y) xs ys"
  by (induction xs arbitrary: ys) (auto split: sum.splits)

definition thread_flag :: "api_thread \<Rightarrow> Comment list \<Rightarrow> bool" where
  "thread_flag item cs \<longleftrightarrow>
     (\<exists>topLevel rs. cs = topLevel # rs \<and>
        comment_id topLevel = item_id (topLevelComment item) \<and> parentId topLevel = None \<and>
        (repliesFetched topLevel \<longleftrightarrow>
           (\<exists>replies. inlined_replies item = Some replies \<and>
                      replyCount topLevel \<le> int (length replies))) \<and>
        (item_replies (topLevelComment item) = None \<longrightarrow>
           replyCount topLevel =
             (case totalReplyCount (item_snippet (topLevelComment item)) of None \<Rightarrow> 0 | Some n \<Rightarrow> n)) \<and>
        length rs = (case inlined_replies item of None \<Rightarrow> 0 | Some replies \<Rightarrow> length replies) \<and>
        (\<forall>r \<in> set rs. parentId r = Some (comment_id topLevel) \<and> \<not> repliesFetched r))"

lemma thread_comments_flag:
  assumes "thread_comments vid item = Inr cs"
  shows "thread_flag item cs"
proof -
  from assms obtain topLevel where
    t: "mapApiCommentToLocal (topLevelComment item) vid None = Inr topLevel"
    by (auto simp: thread_comments_def split: sum.splits)
  note f = mapApiCommentToLocal_fields [OF t]
  show ?thesis
  proof (cases "inlined_replies item")
    case None
    with assms t have "cs = [topLevel]" by (simp add: thread_comments_def)
    with f None show ?thesis by (simp add: thread_flag_def)
  next
    case (Some replies)
    with assms t obtain rs where
      rs: "map_items (\<lambda>reply. mapApiCommentToLocal reply vid (Some (comment_id topLevel))) replies = Inr rs"
      and cs: "cs = (if replyCount topLevel \<le> int (length replies)
                     then topLevel\<lparr>repliesFetched := True\<rparr> else topLevel) # rs"
      by (auto simp: thread_comments_def split: sum.splits)
    from map_items_all [OF rs] have
      all: "list_all2 (\<lambda>x y. mapApiCommentToLocal x vid (Some (comment_id topLevel)) = Inr y) replies rs" .
    then have len: "length rs = length replies" by (simp add: list_all2_lengthD)
    have rs_prop: "parentId r = Some (comment_id topLevel) \<and> \<not> repliesFetched r" if "r \<in> set rs" for r
    proof -
      from that obtain i where "i < length rs" "rs ! i = r" by (auto simp: in_set_conv_nth)
      with all have "mapApiCommentToLocal (replies ! i) vid (Some (comment_id topLevel)) = Inr r"
        by (auto simp: list_all2_conv_all_nth)
      then obtain x where "mapApiCommentToLocal x vid (Some (comment_id topLevel)) = Inr r" ..
      from mapApiCommentToLocal_fields(2,4) [OF this] show ?thesis by simp
    qed
    let ?top = "if replyCount topLevel \<le> int (length replies)
                then topLevel\<lparr>repliesFetched := True\<rparr> else topLevel"
    have top: "comment_id ?top = comment_id topLevel" "parentId ?top = None"
      "replyCount ?top = replyCount topLevel"
      "repliesFetched ?top \<longleftrightarrow> replyCount topLevel \<le> int (length replies)"
      using f(2,4) by simp_all
    show ?thesis
      unfolding thread_flag_def
    proof (intro exI [of _ ?top] exI [of _ rs] conjI)
      show "cs = ?top # rs" by (fact cs)
      show "comment_id ?top = item_id (topLevelComment item)" using top(1) f(1) by simp
      show "parentId ?top = None" by (fact top(2))
      show "repliesFetched ?top \<longleftrightarrow>
          (\<exists>replies. inlined_replies item = Some replies \<and> replyCount ?top \<le> int (length replies))"
        using top(3,4) Some by simp
      show "item_replies (topLevelComment item) = None \<longrightarrow>
          replyCount ?top =
            (case totalReplyCount (item_snippet (topLevelComment item)) of None \<Rightarrow> 0 | Some n \<Rightarrow> n)"
        using top(3) f(5) by simp
      show "length rs = (case inlined_replies item of None \<Rightarrow> 0 | Some replies \<Rightarrow> length replies)"
        using len Some by simp
      show "\<forall>r \<in> set rs. parentId r = Some (comment_id ?top) \<and> \<not> repliesFetched r"
        using rs_prop top(1) by simp
    qed
  qed
qed

text \<open>
  The total a thread reports plays no part in what is built for it, and a thread of the
  shape the API answers with is marked whenever it carries replies inline, however many.
\<close>

lemma thread_comments_ignores_thread_total:
  "thread_comments vid (item\<lparr>thread_totalReplyCount := n\<rparr>) = thread_comments vid item"
proof -
  have "inlined_replies (item\<lparr>thread_totalReplyCount := n\<rparr>) = inlined_replies item"
    by (simp add: inlined_replies_def)
  moreover have "topLevelComment (item\<lparr>thread_totalReplyCount := n\<rparr>) = topLevelComment item"
    by simp
  ultimately show ?thesis
    unfolding thread_comments_def by (simp split: sum.splits option.splits)
qed

lemma thread_comments_marks_api_thread:
  assumes "item_replies (topLevelComment item) = None"
    and "totalReplyCount (item_snippet (topLevelComment item)) = None"
    and "inlined_replies item = Some replies"
    and "thread_comments vid item = Inr cs"
  shows "\<exists>topLevel rs. cs = topLevel # rs \<and> replyCount topLevel = 0 \<and> repliesFetched topLevel"
  using thread_comments_flag [OF assms(4)] assms(1-3)
  by (auto simp: thread_flag_def)

lemma fetchCommentThreads_flag_of_recorded_count:
  assumes "events w = Response res # es" and "res_body res = ThreadItems items next"
    and "fetchCommentThreads vid apiKey tok onProgress_stats w = Some (Inr r, w')"
  shows "\<exists>css. list_all2 thread_flag items css \<and>
               comments w' = bulkPut (concat css) (comments w)"
proof -
  from assms obtain cs where cs: "page_comments vid items = Inr cs"
    and w': "comments w' = bulkPut cs (comments w)"
    by (auto simp: fetchCommentThreads_def enqueueRequest_def fetch_def onProgress_stats_def
          setStats_def split: if_splits sum.splits)
  from cs obtain css where css: "map_items (thread_comments vid) items = Inr css" "cs = concat css"
    by (auto simp: page_comments_def split: sum.splits)
  from map_items_all [OF css(1)] have "list_all2 (\<lambda>x y. thread_comments vid x = Inr y) items css" .
  then have "list_all2 thread_flag items css"
    by (rule list_all2_mono) (rule thread_comments_flag)
  with w' css(2) show ?thesis by blast
qed

section \<open>Facts about the request queue\<close>











section \<open>The reply expansion of one thread\<close>

text \<open>
  C1. A thread is to be marked \<open>repliesFetched\<close> only when the pagination of its replies
  reached the end of the token chain, and a failed request is to leave the flag false.
  \<open>fetchReplies\<close> leaves its loop by \<open>break\<close> at a response that is not ok and then
  marks the parent all the same: for a thread with three replies whose first page is
  answered with status 500, the call returns normally after that one request, no reply
  is stored, and the row of the thread has \<open>repliesFetched = true\<close>.
\<close>

theorem fetchReplies_marks_failed_thread:
  "map_option (\<lambda>(r, w). (r, map comment_id (comments w), map repliesFetched (comments w),
                            length (requests w)))
     (fetchReplies (js ''t1'') (js ''v'') (js ''k'')
        (example_world [Response \<lparr>res_status = 500, res_body = NotJson\<rparr>])) =
   Some (Inr (), [js ''t1''], [True], 1)"
  by (simp add: fetchReplies_def enqueueRequest_def fetchReplies_loop.simps fetch_def ok_def
        example_world_def example_thread_def update_repliesFetched_def js_def)

section \<open>The flag of a thread on a fetched page\<close>

text \<open>
  C2. A top-level comment is to be marked \<open>repliesFetched\<close> on a fetched page only when
  the replies the response carries inline for its thread are at least as many as the
  total the thread reports. \<open>fetchCommentThreads\<close> compares the number of inlined replies
  with the \<open>replyCount\<close> that \<open>mapApiCommentToLocal\<close> gave the top-level comment, and
  that count is read from the comment resource (the length of its own \<open>replies\<close>, else
  the \<open>totalReplyCount\<close> of its own snippet, else 0), never from the snippet of the
  thread, where the response reports the total. For a page of three threads, reporting
  1, 7 and 2 replies and carrying 1, 1 and none inline, the three top-level comments are
  stored with the reply count 0, and the comment of the second thread, six of whose
  seven replies are missing, is stored with \<open>repliesFetched = true\<close>.
\<close>

theorem fetchCommentThreads_marks_partial_thread:
  "map (\<lambda>item. (item_id (topLevelComment item), thread_totalReplyCount item,
                  map_option length (inlined_replies item))) example_page =
     [(js ''t1'', Some 1, Some 1), (js ''t2'', Some 7, Some 1), (js ''t3'', Some 2, None)] \<and>
   (\<exists>w'. fetchCommentThreads (js ''v'') (js ''k'') [] onProgress_stats
           ((example_world [Response \<lparr>res_status = 200, res_body = ThreadItems example_page None\<rparr>])
              \<lparr>comments := []\<rparr>) = Some (Inr None, w') \<and>
         map (\<lambda>c. (comment_id c, replyCount c, repliesFetched c)) (comments w') =
           [(js ''r1'', 0, False), (js ''r2'', 0, False),
            (js ''t1'', 0, True), (js ''t2'', 0, True), (js ''t3'', 0, False)])"
proof -
  let ?res = "\<lparr>res_status = 200, res_body = ThreadItems example_page None\<rparr>"
  let ?w = "(example_world [Response ?res])\<lparr>comments := []\<rparr>"
  define cs where "cs = projr (page_comments (js ''v'') example_page)"
  define w' where "w' = onProgress_stats (int (length cs))
      (?w\<lparr>requests := [\<lparr>req_endpoint = CommentThreads, req_id = js ''v'', req_pageToken = None\<rparr>],
          events := [], comments := bulkPut cs []\<rparr>)"
  have hi: "analyzeComment [104, 105] = Inr \<lparr>score = 0, highlights = []\<rparr>"
    by (simp add: regexp_eval cong: matcher_cong_weak del: lit.simps)
  have page: "page_comments (js ''v'') example_page = Inr cs"
    unfolding cs_def
    by (simp add: example_page_def example_snippet_def page_comments_def thread_comments_def
          inlined_replies_def mapApiCommentToLocal_def hi Let_def js_def)
  have rows: "map (\<lambda>c. (comment_id c, replyCount c, repliesFetched c)) (bulkPut cs []) =
          [(js ''r1'', 0, False), (js ''r2'', 0, False),
           (js ''t1'', 0, True), (js ''t2'', 0, True), (js ''t3'', 0, False)]"
    unfolding cs_def
    by (simp add: example_page_def example_snippet_def page_comments_def thread_comments_def
          inlined_replies_def mapApiCommentToLocal_def hi Let_def js_def bulkPut_def)
  have run: "fetchCommentThreads (js ''v'') (js ''k'') [] onProgress_stats ?w = Some (Inr None, w')"
    unfolding w'_def
    by (simp add: fetchCommentThreads_def enqueueRequest_def fetch_def ok_def example_world_def
          page or_null_def)
  have stored: "comments w' = bulkPut cs []"
    by (simp add: w'_def onProgress_stats_def setStats_def)
  have shape: "map (\<lambda>item. (item_id (topLevelComment item), thread_totalReplyCount item,
                  map_option length (inlined_replies item))) example_page =
     [(js ''t1'', Some 1, Some 1), (js ''t2'', Some 7, Some 1), (js ''t3'', Some 2, None)]"
    by (simp add: example_page_def inlined_replies_def)
  from run rows stored have "\<exists>w'. fetchCommentThreads (js ''v'') (js ''k'') [] onProgress_stats ?w =
        Some (Inr None, w') \<and>
      map (\<lambda>c. (comment_id c, replyCount c, repliesFetched c)) (comments w') =
        [(js ''r1'', 0, False), (js ''r2'', 0, False),
         (js ''t1'', 0, True), (js ''t2'', 0, True), (js ''t3'', 0, False)]"
    by (intro exI [of _ w']) simp
  with shape show ?thesis by (intro conjI)
qed

section \<open>Properties of the scoring function\<close>

text \<open>
  C3. For every text, and whatever the \<open>lastIndex\<close> properties of the four pattern
  objects are, \<open>analyzeComment\<close> returns a result without throwing, the score is an
  integer between 0 and 100, the result is the one obtained from fresh pattern objects
  (so it is the same at every call), and the pattern objects are left as they were.
\<close>

theorem analyzeComment_score_range_deterministic:
  "\<exists>res. analyzeComment_st text st = (Inr res, st) \<and> analyzeComment text = Inr res \<and>
         0 \<le> score res \<and> score res \<le> 100"
  by (simp add: analyzeComment_st_eq analyzeComment_eq total_score_def)

text \<open>
  C4, as the code has it. The source heuristic fires exactly when the text contains one
  of the labels name, source, sauce, anime, movie, title, track, song (ASCII letters in
  either case), then any white space, then one of the characters colon, equals sign and
  hyphen, then any white space, then at least one character that is not a line
  terminator. When it fires it adds 80 to the sum that is capped at 100 and the first
  highlight is the one highlight of kind source; that highlight has the length of the
  captured value and the text under it reads as the captured value. When it does not
  fire there is no highlight of kind source. For the text "source: My Anime Name" the
  score is 80 and the one highlight is the span from 8 to 21, which is "My Anime Name".
\<close>

theorem source_heuristic:
  "\<exists>res. analyzeComment text = Inr res \<and>
     score res = min ((if label_value_shape source_labels source_separators text then 80 else 0) +
                      (if fires HELPER text then 50 else 0) + (if fires BRACKET text then 40 else 0) +
                      (if fires QUESTION text then 10 else 0)) 100 \<and>
     (label_value_shape source_labels source_separators text \<longrightarrow>
        (\<exists>h hs mt v. highlights res = h # hs \<and> hl_type h = source \<and>
           source \<notin> hl_type ` set hs \<and>
           fst (String_match text SOURCE 0) = Some mt \<and> capture text mt 2 = Some v \<and> covers text h v)) \<and>
     (\<not> label_value_shape source_labels source_separators text \<longrightarrow>
        source \<notin> hl_type ` set (highlights res)) \<and>
     analyzeComment (js ''source: My Anime Name'') =
       Inr \<lparr>score = 80, highlights = [\<lparr>hl_start = 8, hl_end = 21, hl_type = source\<rparr>]\<rparr> \<and>
     substring (js ''source: My Anime Name'') 8 21 = js ''My Anime Name''"
proof -
  let ?S = "label_value_shape source_labels source_separators text"
  let ?rest = "helper_highlights text @ bracket_highlights text"
  have rest: "source \<notin> hl_type ` set ?rest"
    using helper_highlights_kind [of "text"] bracket_highlights_kind [of "text"]
    by (auto simp: image_Un simp flip: set_map split: if_splits)
  have fired: "\<exists>h hs mt v. source_highlights text @ ?rest = h # hs \<and> hl_type h = source \<and>
           source \<notin> hl_type ` set hs \<and>
           fst (String_match text SOURCE 0) = Some mt \<and> capture text mt 2 = Some v \<and> covers text h v"
    if ?S
  proof -
    from that have "fires SOURCE text" by (simp add: fires_SOURCE)
    then obtain mt where mt: "search True (pattern SOURCE) 0 text = Some mt"
      by (auto simp: fires_search)
    from source_highlights_covers [OF mt] obtain h v where
      h: "source_highlights text = [h]" "hl_type h = source" "capture text mt 2 = Some v"
         "covers text h v" by blast
    have "fst (String_match text SOURCE 0) = Some mt"
      using mt by (simp add: String_match_def exec_nonglobal)
    with h rest show ?thesis
      by (intro exI [of _ h] exI [of _ ?rest] exI [of _ mt] exI [of _ v]) simp
  qed
  have unfired: "source \<notin> hl_type ` set (source_highlights text @ ?rest)" if "\<not> ?S"
  proof -
    from that have "\<not> fires SOURCE text" by (simp add: fires_SOURCE)
    then have "source_highlights text = []"
      using source_highlights_kind [of "text"] by simp
    with rest show ?thesis by simp
  qed
  have ex: "analyzeComment (js ''source: My Anime Name'') =
       Inr \<lparr>score = 80, highlights = [\<lparr>hl_start = 8, hl_end = 21, hl_type = source\<rparr>]\<rparr>"
    by (simp add: regexp_eval cong: matcher_cong_weak del: lit.simps)
  have sub: "substring (js ''source: My Anime Name'') 8 21 = js ''My Anime Name''"
    by (simp add: substring_def js_def)
  show ?thesis
    using fired unfired ex sub
    by (simp add: analyzeComment_eq total_score_def fires_SOURCE)
qed

text \<open>
  The heuristic at two texts: "name = a" has the shape, and the highlight that results
  reads as the captured value "a"; "hello" has not, and there is no highlight.
\<close>

theorem source_heuristic_witness:
  "label_value_shape source_labels source_separators (js ''name = a'') \<and>
   (\<exists>h mt. analyzeComment (js ''name = a'') = Inr \<lparr>score = 80, highlights = [h]\<rparr> \<and>
      hl_type h = source \<and> fst (String_match (js ''name = a'') SOURCE 0) = Some mt \<and>
      capture (js ''name = a'') mt 2 = Some (js ''a'') \<and> covers (js ''name = a'') h (js ''a'')) \<and>
   \<not> label_value_shape source_labels source_separators (js ''hello'') \<and>
   analyzeComment (js ''hello'') = Inr \<lparr>score = 0, highlights = []\<rparr>"
proof -
  let ?t = "js ''name = a''"
  have a: "analyzeComment ?t =
      Inr \<lparr>score = 80, highlights = [\<lparr>hl_start = 1, hl_end = 2, hl_type = source\<rparr>]\<rparr>"
    by (simp add: regexp_eval cong: matcher_cong_weak del: lit.simps)
  have b: "analyzeComment (js ''hello'') = Inr \<lparr>score = 0, highlights = []\<rparr>"
    by (simp add: regexp_eval cong: matcher_cong_weak del: lit.simps)
  have f: "fires SOURCE ?t"
    by (simp add: fires_def regexp_eval cong: matcher_cong_weak del: lit.simps)
  have g: "\<not> fires SOURCE (js ''hello'')"
    by (simp add: fires_def regexp_eval cong: matcher_cong_weak del: lit.simps)
  have S: "label_value_shape source_labels source_separators ?t"
    using f by (simp add: fires_SOURCE)
  have nS: "\<not> label_value_shape source_labels source_separators (js ''hello'')"
    using g by (simp add: fires_SOURCE)
  from source_heuristic [of ?t] S a obtain h hs mt v where
    h: "[\<lparr>hl_start = 1, hl_end = 2, hl_type = source\<rparr>] = h # hs" "hl_type h = source"
       "fst (String_match ?t SOURCE 0) = Some mt" "capture ?t mt 2 = Some v" "covers ?t h v"
    by auto
  from h(1) have h1: "h = \<lparr>hl_start = 1, hl_end = 2, hl_type = source\<rparr>" by simp
  from h(5) have "v = js ''a''"
    unfolding h1 by (simp add: covers_def substring_def js_def)
  with h a h1 S nS b show ?thesis by auto
qed

text \<open>
  C4, as the claim states it, gives the vocabulary as name, source, title, track, song,
  movie, anime and the shape as "label: value". The text "sauce: x" holds none of these
  labels, and the heuristic fires on it.
\<close>

theorem source_vocabulary_counterexample:
  "analyzeComment (js ''sauce: x'') =
     Inr \<lparr>score = 80, highlights = [\<lparr>hl_start = 7, hl_end = 8, hl_type = source\<rparr>]\<rparr> \<and>
   \<not> label_value_shape claimed_labels [(58, 58)] (js ''sauce: x'')"
proof
  show "analyzeComment (js ''sauce: x'') =
     Inr \<lparr>score = 80, highlights = [\<lparr>hl_start = 7, hl_end = 8, hl_type = source\<rparr>]\<rparr>"
    by (simp add: regexp_eval cong: matcher_cong_weak del: lit.simps)
  show "\<not> label_value_shape claimed_labels [(58, 58)] (js ''sauce: x'')"
  proof
    assume "label_value_shape claimed_labels [(58, 58)] (js ''sauce: x'')"
    from label_value_shape_letters [OF this] show False
      by (simp add: claimed_labels_def js_def canonicalize_def)
  qed
qed

text \<open>
  The highlight is placed at the first occurrence of the captured value in the matched
  text, which can lie in the label: in "name: a" the value is the last character, and
  the highlight is the "a" of "name".
\<close>

lemma source_highlight_in_label:
  "analyzeComment (js ''name: a'') =
     Inr \<lparr>score = 80, highlights = [\<lparr>hl_start = 1, hl_end = 2, hl_type = source\<rparr>]\<rparr>"
  by (simp add: regexp_eval cong: matcher_cong_weak del: lit.simps)

text \<open>
  C10. For every text the kinds of the highlights, in the order of the array, form a
  subsequence of source, helper, bracket: each kind occurs at most once, there are at
  most three highlights, and they come in that fixed order.
\<close>

theorem analyzeComment_highlights_order:
  "\<exists>res. analyzeComment text = Inr res \<and>
         subseq (map hl_type (highlights res)) [source, helper, bracket] \<and>
         (\<forall>k. count_list (map hl_type (highlights res)) k \<le> 1) \<and>
         length (highlights res) \<le> 3"
proof -
  let ?hs = "source_highlights text @ helper_highlights text @ bracket_highlights text"
  have kinds: "map hl_type ?hs =
      (if fires SOURCE text then [source] else []) @ (if fires HELPER text then [helper] else []) @
      (if fires BRACKET text then [bracket] else [])"
    by (simp add: source_highlights_kind helper_highlights_kind bracket_highlights_kind)
  have "subseq (map hl_type ?hs) [source, helper, bracket]"
    unfolding kinds by simp
  moreover have "count_list (map hl_type ?hs) k \<le> 1" for k
    unfolding kinds by (cases k) simp_all
  moreover have "length (map hl_type ?hs) \<le> 3"
    unfolding kinds by simp
  ultimately show ?thesis
    by (simp add: analyzeComment_eq)
qed

section \<open>Starting and stopping a scan\<close>

text \<open>
  C5. A scan that was stopped is to stay paused. In \<open>handleSmartScan\<close> the statement
  after the loop sets the status to complete whether or not the loop ended because of
  \<open>cancelScanRef\<close>: with Stop pressed while the first page is in flight, and the page
  answered with a token for a next page, the status goes from running to paused and,
  when the request has settled, to complete. No further request is dispatched.
\<close>

theorem smart_scan_stopped_then_complete:
  "map_option (\<lambda>w. (status (stats w), status_log w, cancelScanRef w, length (requests w)))
     (handleSmartScan (js ''v'') (js ''k'')
        ((example_world [Stop, Response \<lparr>res_status = 200,
                                          res_body = ThreadItems [] (Some (js ''p2''))\<rparr>])
           \<lparr>comments := []\<rparr>)) =
   Some (Complete, [Running, Paused, Paused, Complete], True, 1)"
  by (simp add: handleSmartScan_def smart_start_def setStats_def example_world_def example_meta_def
        smart_loop.simps fetchCommentThreads_def enqueueRequest_def fetch_def stopScan_def ok_def
        page_comments_def bulkPut_def or_null_def onProgress_stats_def promisingThreads_def
        where_videoId_def js_def)

text \<open>
  C6, as the code has it. Starting a scan, from any state, puts the scan in the running
  state with the mode of the scan, clears the cancellation flag and leaves
  \<open>fetchedCount\<close> as it was; the smart scan also clears the error message.
\<close>

theorem start_puts_scan_in_running_state:
  "status (stats (smart_start w)) = Running \<and> mode (stats (smart_start w)) = Some Smart \<and>
   error (stats (smart_start w)) = None \<and>
   fetchedCount (stats (smart_start w)) = fetchedCount (stats w) \<and>
   \<not> cancelScanRef (smart_start w) \<and>
   status (stats (deep_start w)) = Running \<and> mode (stats (deep_start w)) = Some Deep \<and>
   fetchedCount (stats (deep_start w)) = fetchedCount (stats w) \<and>
   \<not> cancelScanRef (deep_start w)"
  by (simp add: smart_start_def deep_start_def setStats_def)

text \<open>
  C6, as the claim states it, has \<open>fetchedCount\<close> reset to 0. Started from a paused
  state with five comments counted, either scan is running with the count still 5.
\<close>

theorem start_resets_fetchedCount_counterexample:
  "status (stats paused_world) = Paused \<and>
   status (stats (smart_start paused_world)) = Running \<and>
   fetchedCount (stats (smart_start paused_world)) = 5 \<and>
   status (stats (deep_start paused_world)) = Running \<and>
   fetchedCount (stats (deep_start paused_world)) = 5"
  by (simp add: paused_world_def example_world_def smart_start_def deep_start_def setStats_def)

section \<open>Responses that are not a success\<close>

text \<open>
  C7, as the code has it. When the response to the request is not ok: the fetch of a
  page of threads raises QuotaExceeded for status 403 and NetworkError for any other
  status, after that one request; the fetch of replies raises nothing, it stops
  paginating, marks the parent and returns; the fetch of the item metadata does not look
  at the status, and for a body without items it returns the absent value.
\<close>

theorem failure_responses:
  assumes "events w = Response res # es" and "\<not> ok res"
  shows "fetchCommentThreads vid apiKey tok onProgress w =
           Some (Inl (if res_status res = 403 then QuotaExceeded else NetworkError),
                 w\<lparr>requests := requests w @
                      [\<lparr>req_endpoint = CommentThreads, req_id = vid,
                        req_pageToken = (if tok = [] then None else Some tok)\<rparr>],
                    events := es\<rparr>) \<and>
         fetchReplies parent vid apiKey w =
           Some (Inr (),
                 w\<lparr>requests := requests w @
                      [\<lparr>req_endpoint = Comments, req_id = parent, req_pageToken = None\<rparr>],
                    events := es,
                    comments := update_repliesFetched parent (comments w)\<rparr>) \<and>
         (res_body res = NoItems \<longrightarrow>
          fetchVideoDetails vid apiKey w =
            Some (Inr None,
                  w\<lparr>requests := requests w @
                       [\<lparr>req_endpoint = Videos, req_id = vid, req_pageToken = None\<rparr>],
                     events := es\<rparr>))"
  using assms
  by (simp add: fetchCommentThreads_def fetchReplies_def fetchVideoDetails_def enqueueRequest_def
        fetchReplies_loop.simps fetch_def)

theorem failure_responses_witness:
  "fetchCommentThreads (js ''v'') (js ''k'') [] onProgress_stats
     (example_world [Response \<lparr>res_status = 403, res_body = NoItems\<rparr>]) =
     Some (Inl QuotaExceeded,
           (example_world [])\<lparr>requests :=
              [\<lparr>req_endpoint = CommentThreads, req_id = js ''v'', req_pageToken = None\<rparr>]\<rparr>) \<and>
   fetchCommentThreads (js ''v'') (js ''k'') [] onProgress_stats
     (example_world [Response \<lparr>res_status = 500, res_body = NotJson\<rparr>]) =
     Some (Inl NetworkError,
           (example_world [])\<lparr>requests :=
              [\<lparr>req_endpoint = CommentThreads, req_id = js ''v'', req_pageToken = None\<rparr>]\<rparr>) \<and>
   fetchVideoDetails (js ''v'') (js ''k'')
     (example_world [Response \<lparr>res_status = 403, res_body = NoItems\<rparr>]) =
     Some (Inr None,
           (example_world [])\<lparr>requests :=
              [\<lparr>req_endpoint = Videos, req_id = js ''v'', req_pageToken = None\<rparr>]\<rparr>)"
  using failure_responses [of "example_world [Response \<lparr>res_status = 403, res_body = NoItems\<rparr>]"
          "\<lparr>res_status = 403, res_body = NoItems\<rparr>" "[]" "js ''v''" "js ''k''" "[]"
          onProgress_stats "js ''t1''"]
        failure_responses [of "example_world [Response \<lparr>res_status = 500, res_body = NotJson\<rparr>]"
          "\<lparr>res_status = 500, res_body = NotJson\<rparr>" "[]" "js ''v''" "js ''k''" "[]"
          onProgress_stats "js ''t1''"]
  by (simp add: example_world_def ok_def)

text \<open>
  C7, as the claim states it, has every one of the three operations raise QuotaExceeded
  at a forbidden response. The fetch of replies, answered with status 403, returns
  normally.
\<close>

theorem fetchReplies_forbidden_counterexample:
  "map_option fst
     (fetchReplies (js ''t1'') (js ''v'') (js ''k'')
        (example_world [Response \<lparr>res_status = 403, res_body = NoItems\<rparr>])) = Some (Inr ())"
  by (simp add: fetchReplies_def enqueueRequest_def fetchReplies_loop.simps fetch_def ok_def
        example_world_def)

section \<open>The order and the pacing of the request queue\<close>



section \<open>The ranking of the candidates\<close>

text \<open>
  C9, as the code has it. The query \<open>candidates\<close> returns exactly the comments of the
  requested video whose score is between 1 and 100, in descending order of the score.
  It takes no bound on the number of results.
\<close>

theorem candidates_ranked:
  "(\<forall>c \<in> set (candidates vid w).
      c \<in> set (comments w) \<and> videoId c = vid \<and> 1 \<le> comment_score c \<and> comment_score c \<le> 100) \<and>
   (\<forall>c \<in> set (comments w).
      videoId c = vid \<and> 1 \<le> comment_score c \<and> comment_score c \<le> 100 \<longrightarrow> c \<in> set (candidates vid w)) \<and>
   sorted_wrt (\<lambda>a b. comment_score b \<le> comment_score a) (candidates vid w)"
  using set_candidates [of vid w] sorted_candidates [of vid w] by auto

theorem candidates_ranked_witness:
  "map (\<lambda>c. (comment_id c, videoId c, comment_score c)) (candidates (js ''v'') ranked_world) =
     [(js ''c'', js ''v'', 90), (js ''a'', js ''v'', 40)] \<and>
   list_all (\<lambda>c. c \<in> set (comments ranked_world) \<and> videoId c = js ''v'' \<and>
                  1 \<le> comment_score c \<and> comment_score c \<le> 100)
     (candidates (js ''v'') ranked_world) \<and>
   sorted_wrt (\<lambda>a b. comment_score b \<le> comment_score a) (candidates (js ''v'') ranked_world)"
proof -
  have "map (\<lambda>c. (comment_id c, videoId c, comment_score c)) (candidates (js ''v'') ranked_world) =
     [(js ''c'', js ''v'', 90), (js ''a'', js ''v'', 40)]"
    by (simp add: candidates_def sortBy_score_reversed_def between_def key_le_def ranked_world_def
          example_world_def example_thread_def js_def)
  with candidates_ranked [of "js ''v''" ranked_world] show ?thesis
    by (simp add: list_all_iff)
qed

text \<open>
  C9, as the claim states it, has the number of results bounded by a bound the caller
  supplies. With two candidates stored the query returns both, whatever bound the
  caller has in mind: more than a bound of 1.
\<close>

theorem candidates_unbounded_counterexample:
  "map comment_id (candidates (js ''v'') ranked_world) = [js ''c'', js ''a''] \<and>
   \<not> length (candidates (js ''v'') ranked_world) \<le> 1"
  by (simp add: candidates_def sortBy_score_reversed_def between_def key_le_def ranked_world_def
        example_world_def example_thread_def js_def)

end
